theory Spec2Isabelle
  imports Complex_Main "HOL-Library.AList"
begin

section \<open>Data model of \<^verbatim>\<open>vllm/spec_decode/multi_proposers_worker.py\<close>\<close>

text \<open>
  Python exceptions are values. \<open>BackendError\<close> stands for whatever a proposer raises
  inside its own operations.
\<close>

datatype error =
  ValueError | NotImplementedError | KeyError | IndexError | TypeError | RuntimeError
  | AttributeError | BackendError

text \<open>
  \<open>SpecDecodeParams\<close> is declared outside this file; the coordinator only calls
  \<open>get_proposer()\<close> and \<open>set_proposer(name)\<close> on it, so it is the object holding the
  proposer name. An object of that class is truthy, hence \<open>if sd_params:\<close> and
  \<open>if sd_params is not None:\<close> are the same test.
\<close>

datatype spec_decode_params = SpecDecodeParams (get_proposer: string)

definition set_proposer :: "string \<Rightarrow> spec_decode_params \<Rightarrow> spec_decode_params" where
  "set_proposer name sd_params = SpecDecodeParams name"

record sequence_group_metadata =
  request_id :: string
  spec_decode_params :: "spec_decode_params option"

text \<open>An \<open>ExecuteModelRequest\<close> is read only through its \<open>seq_group_metadata_list\<close>.\<close>

type_synonym execute_model_request = "sequence_group_metadata list"

text \<open>
  \<open>SpeculativeProposals\<close>: three tensors whose first dimension is the batch; a tensor is
  the list of its rows.
\<close>

record speculative_proposals =
  proposal_token_ids :: "int list list"
  proposal_probs :: "real list list list"
  proposal_lens :: "int list"

datatype sampler_output = SamplerOutput "int list"

text \<open>
  The classes \<open>isinstance\<close> distinguishes. A \<open>SmallerTpProposerWorker\<close> may or may not have
  the attribute \<open>_worker\<close>; any other \<open>ProposerWorkerBase\<close> is \<open>OtherProposerWorker\<close>.
\<close>

datatype worker_class =
  MultiStepWorker
  | SmallerTpProposerWorker "worker_class option"
  | OtherProposerWorker

text \<open>A proposer: its class and the operations the coordinator calls on it.\<close>

record worker =
  cls :: worker_class
  get_spec_proposals_w :: "execute_model_request \<Rightarrow> int set \<Rightarrow> error + speculative_proposals"
  execute_model_w :: "execute_model_request \<Rightarrow> error + sampler_output list"
  get_cache_block_size_bytes_w :: "error + int"
  determine_num_available_blocks_w :: "error + int \<times> int"
  initialize_cache_w :: "int \<Rightarrow> int \<Rightarrow> error + unit"

text \<open>
  \<open>self._workers\<close>: a Python dict, in insertion order, as an association list that is
  read with \<open>map_of\<close>.
\<close>

type_synonym workers = "(string \<times> worker) list"

text \<open>The operations invoked on proposers, in the order of the calls.\<close>

datatype backend_call =
  ExecuteModelCall string execute_model_request
  | GetSpecProposalsCall string execute_model_request
  | GetCacheBlockSizeBytesCall string
  | DetermineNumAvailableBlocksCall string
  | InitializeCacheCall string int int

definition ngram :: string where
  "ngram = ''[ngram]''"

definition valid_proposers :: "workers \<Rightarrow> string list" where
  "valid_proposers ws = map fst ws"

section \<open>\<open>is_multi_step_worker_instance\<close>\<close>

text \<open>
  The result is \<open>Some b\<close> for the Python boolean \<open>b\<close> and \<open>None\<close> for Python's \<open>None\<close>:
  the \<open>elif\<close> branch has no \<open>return\<close> when \<open>hasattr(obj, '_worker')\<close> is false.
\<close>

fun is_multi_step_worker_instance :: "worker_class \<Rightarrow> bool option" where
  "is_multi_step_worker_instance MultiStepWorker = Some True"
| "is_multi_step_worker_instance (SmallerTpProposerWorker (Some w)) =
     is_multi_step_worker_instance w"
| "is_multi_step_worker_instance (SmallerTpProposerWorker None) = None"
| "is_multi_step_worker_instance OtherProposerWorker = Some False"

text \<open>Python truth value of that result, as \<open>if\<close> takes it.\<close>

definition truthy :: "bool option \<Rightarrow> bool" where
  "truthy r = (r = Some True)"

section \<open>\<open>_get_proposer_for_this_step\<close>\<close>

text \<open>
  The popularity loop. \<open>proposer_count\<close> is a dict in insertion order: a new key is
  appended, an existing key is updated where it stands (\<open>AList.update\<close>).
\<close>

fun count_proposers ::
  "string list \<Rightarrow> sequence_group_metadata list \<Rightarrow> (string \<times> int) list \<Rightarrow> (string \<times> int) list"
where
  "count_proposers valid [] proposer_count = proposer_count"
| "count_proposers valid (seq # rest) proposer_count =
     (case spec_decode_params seq of
        None \<Rightarrow> count_proposers valid rest proposer_count
      | Some sd_params \<Rightarrow>
          (let proposer = get_proposer sd_params in
           if proposer \<notin> set valid then count_proposers valid rest proposer_count
           else
             (let pc = (if proposer \<notin> set (map fst proposer_count)
                        then AList.update proposer 0 proposer_count else proposer_count)
              in count_proposers valid rest (AList.map_entry proposer (\<lambda>c. c + 1) pc))))"

text \<open>
  Python's \<open>max(d, key=d.get)\<close>: the keys are visited in the dict's order and the running
  best is replaced only by a strictly larger count, so the first maximal key is returned.
  The count of a key of \<open>d\<close> is the value stored with it.
\<close>

fun py_max_from :: "string \<times> int \<Rightarrow> (string \<times> int) list \<Rightarrow> string" where
  "py_max_from best [] = fst best"
| "py_max_from best (kv # rest) =
     py_max_from (if snd kv > snd best then kv else best) rest"

fun py_max :: "(string \<times> int) list \<Rightarrow> error + string" where
  "py_max [] = Inl ValueError"
| "py_max (kv # rest) = Inr (py_max_from kv rest)"

text \<open>
  The latency loop, with the number of sequences it has visited: \<open>break\<close> leaves the rest
  of the batch unvisited.
\<close>

fun latency_scan ::
  "string list \<Rightarrow> sequence_group_metadata list \<Rightarrow> string \<Rightarrow> nat \<Rightarrow> string \<times> nat"
where
  "latency_scan valid [] chosen_proposer visited = (chosen_proposer, visited)"
| "latency_scan valid (seq # rest) chosen_proposer visited =
     (case spec_decode_params seq of
        None \<Rightarrow> latency_scan valid rest chosen_proposer (Suc visited)
      | Some sd_params \<Rightarrow>
          (let proposer = get_proposer sd_params in
           if proposer = ngram then (proposer, Suc visited)
           else if proposer \<notin> set valid
             then latency_scan valid rest chosen_proposer (Suc visited)
             else latency_scan valid rest proposer (Suc visited)))"

text \<open>
  \<open>execute_model_req.seq_group_metadata_list\<close> is read before the policy is looked at, so
  a request that is \<open>None\<close> raises \<open>AttributeError\<close> under every policy.
\<close>

definition get_proposer_for_this_step ::
  "workers \<Rightarrow> execute_model_request option \<Rightarrow> string option \<Rightarrow> error + string"
where
  "get_proposer_for_this_step ws execute_model_req schedule_policy =
     (case execute_model_req of
        None \<Rightarrow> Inl AttributeError
      | Some seq_group_metadata_list \<Rightarrow>
          (if schedule_policy = Some ''popularity'' then
             (let proposer_count =
                    count_proposers (valid_proposers ws) seq_group_metadata_list []
              in if length proposer_count \<noteq> 0 then py_max proposer_count else Inr ngram)
           else if schedule_policy = Some ''proposal_latency'' then
             Inr (fst (latency_scan (valid_proposers ws) seq_group_metadata_list ngram 0))
           else if schedule_policy = Some ''proposal_quality'' then Inl NotImplementedError
           else Inl ValueError))"

section \<open>Operations on the whole batch\<close>

text \<open>
  What an operation leaves behind: its result (or the exception), the calls it made on
  proposers, and the batch as the caller finds it afterwards (the sequence objects are
  shared with the caller, \<open>set_proposer\<close> mutates them in place). Proposers are taken not
  to touch the assignments themselves.
\<close>

record 'r outcome =
  result :: "error + 'r"
  calls :: "backend_call list"
  batch_after :: "sequence_group_metadata list"

definition get_spec_proposals ::
  "workers \<Rightarrow> execute_model_request \<Rightarrow> int set \<Rightarrow> speculative_proposals outcome"
where
  "get_spec_proposals ws execute_model_req seq_ids_with_bonus_token_in_last_step =
     (case get_proposer_for_this_step ws (Some execute_model_req) (Some ''proposal_latency'') of
        Inl e \<Rightarrow> \<lparr>result = Inl e, calls = [], batch_after = execute_model_req\<rparr>
      | Inr chosen_proposer \<Rightarrow>
          (case map_of ws chosen_proposer of
             None \<Rightarrow> \<lparr>result = Inl KeyError, calls = [], batch_after = execute_model_req\<rparr>
           | Some w \<Rightarrow>
               \<lparr>result = get_spec_proposals_w w execute_model_req
                            seq_ids_with_bonus_token_in_last_step,
                calls = [GetSpecProposalsCall chosen_proposer execute_model_req],
                batch_after = execute_model_req\<rparr>))"

text \<open>
  The loop of \<open>execute_model\<close>. The result is \<open>Inr (Some p)\<close> after \<open>break\<close> with
  \<open>proposer = p\<close>, \<open>Inr None\<close> when the loop runs to its \<open>else\<close>, and \<open>Inl KeyError\<close> when
  \<open>self._workers[proposer]\<close> has no such key; the second component is the batch with the
  assignments rewritten so far.
\<close>

fun execute_model_scan ::
  "workers \<Rightarrow> sequence_group_metadata list
     \<Rightarrow> (error + string option) \<times> sequence_group_metadata list"
where
  "execute_model_scan ws [] = (Inr None, [])"
| "execute_model_scan ws (seq # rest) =
     (case spec_decode_params seq of
        None \<Rightarrow> apsnd ((#) seq) (execute_model_scan ws rest)
      | Some sd_params \<Rightarrow>
          (let invalid = get_proposer sd_params \<notin> set (valid_proposers ws);
               proposer = (if invalid then ngram else get_proposer sd_params);
               seq' = (if invalid
                       then seq\<lparr>spec_decode_params := Some (set_proposer ngram sd_params)\<rparr>
                       else seq)
           in case map_of ws proposer of
                None \<Rightarrow> (Inl KeyError, seq' # rest)
              | Some w \<Rightarrow>
                  if truthy (is_multi_step_worker_instance (cls w))
                  then (Inr (Some proposer), seq' # rest)
                  else apsnd ((#) seq') (execute_model_scan ws rest)))"

definition execute_model ::
  "workers \<Rightarrow> execute_model_request option \<Rightarrow> sampler_output list outcome"
where
  "execute_model ws execute_model_req =
     (case execute_model_req of
        None \<Rightarrow> \<lparr>result = Inr [], calls = [], batch_after = []\<rparr>
      | Some seq_group_metadata_list \<Rightarrow>
          (case execute_model_scan ws seq_group_metadata_list of
             (Inl e, batch') \<Rightarrow> \<lparr>result = Inl e, calls = [], batch_after = batch'\<rparr>
           | (Inr None, batch') \<Rightarrow> \<lparr>result = Inr [], calls = [], batch_after = batch'\<rparr>
           | (Inr (Some proposer), batch') \<Rightarrow>
               (case map_of ws proposer of
                  None \<Rightarrow> \<lparr>result = Inl KeyError, calls = [], batch_after = batch'\<rparr>
                | Some w \<Rightarrow>
                    \<lparr>result = execute_model_w w batch',
                     calls = [ExecuteModelCall proposer batch'],
                     batch_after = batch'\<rparr>)))"

section \<open>\<open>_get_combined_spec_proposals\<close>\<close>

text \<open>
  The partition loop over \<open>enumerate(seq_group_metadata_list)\<close>. Both dicts are keyed by
  the proposer name, in insertion order; \<open>proposer not in proposer_requests\<close> decides for
  both. A sequence whose \<open>sd_params\<close> is \<open>None\<close> is passed over.
\<close>

fun partition_scan ::
  "string list \<Rightarrow> (nat \<times> sequence_group_metadata) list
     \<Rightarrow> (string \<times> sequence_group_metadata list) list \<Rightarrow> (string \<times> nat list) list
     \<Rightarrow> (string \<times> sequence_group_metadata list) list \<times> (string \<times> nat list) list"
where
  "partition_scan valid [] proposer_requests original_indices =
     (proposer_requests, original_indices)"
| "partition_scan valid ((idx, seq) # rest) proposer_requests original_indices =
     (case spec_decode_params seq of
        None \<Rightarrow> partition_scan valid rest proposer_requests original_indices
      | Some sd_params \<Rightarrow>
          (let proposer = (if get_proposer sd_params \<notin> set valid then ngram
                           else get_proposer sd_params);
               fresh = proposer \<notin> set (map fst proposer_requests);
               pr = (if fresh then AList.update proposer [] proposer_requests
                     else proposer_requests);
               oi = (if fresh then AList.update proposer [] original_indices
                     else original_indices)
           in partition_scan valid rest
                (AList.map_entry proposer (\<lambda>l. l @ [seq]) pr)
                (AList.map_entry proposer (\<lambda>l. l @ [idx]) oi)))"

text \<open>
  The dict comprehension that submits one task per non-empty group: the futures submitted
  so far, each with its proposer, its sub-batch and what the task will yield, and the
  \<open>KeyError\<close> of \<open>self._workers[proposer]\<close> if one stops it.
\<close>

fun submit_all ::
  "workers \<Rightarrow> (string \<times> sequence_group_metadata list) list \<Rightarrow> int set
     \<Rightarrow> error option
        \<times> (string \<times> execute_model_request \<times> (error + speculative_proposals)) list"
where
  "submit_all ws [] bonus = (None, [])"
| "submit_all ws ((proposer, sq_list) # rest) bonus =
     (if length sq_list \<noteq> 0 then
        (case map_of ws proposer of
           None \<Rightarrow> (Some KeyError, [])
         | Some w \<Rightarrow>
             apsnd ((#) (proposer, sq_list, get_spec_proposals_w w sq_list bonus))
               (submit_all ws rest bonus))
      else submit_all ws rest bonus)"

text \<open>\<open>future.result()\<close> in the order of submission: the first failure is raised.\<close>

fun collect_results ::
  "(string \<times> execute_model_request \<times> (error + speculative_proposals)) list
     \<Rightarrow> (string \<times> speculative_proposals) list
     \<Rightarrow> error + (string \<times> speculative_proposals) list"
where
  "collect_results [] all_proposals = Inr all_proposals"
| "collect_results ((proposer, sq_list, future) # rest) all_proposals =
     (case future of
        Inl e \<Rightarrow> Inl e
      | Inr proposals \<Rightarrow> collect_results rest (AList.update proposer proposals all_proposals))"

text \<open>
  The three merged lists, \<open>None\<close> where nothing has been written. Reading row \<open>i\<close> of a
  tensor and writing position \<open>idx\<close> of a list raise \<open>IndexError\<close> out of range.
\<close>

type_synonym merged =
  "int list option list \<times> real list list option list \<times> int option list"

fun scatter :: "speculative_proposals \<Rightarrow> (nat \<times> nat) list \<Rightarrow> merged \<Rightarrow> error + merged" where
  "scatter proposals [] m = Inr m"
| "scatter proposals ((i, idx) # rest) (merged_token_ids, merged_probs, merged_lens) =
     (if i < length (proposal_token_ids proposals) \<and> idx < length merged_token_ids
         \<and> i < length (proposal_probs proposals) \<and> idx < length merged_probs
         \<and> i < length (proposal_lens proposals) \<and> idx < length merged_lens
      then scatter proposals rest
             (merged_token_ids[idx := Some (proposal_token_ids proposals ! i)],
              merged_probs[idx := Some (proposal_probs proposals ! i)],
              merged_lens[idx := Some (proposal_lens proposals ! i)])
      else Inl IndexError)"

fun merge_all ::
  "(string \<times> nat list) list \<Rightarrow> (string \<times> speculative_proposals) list \<Rightarrow> merged
     \<Rightarrow> error + merged"
where
  "merge_all [] all_proposals m = Inr m"
| "merge_all ((proposer, indices) # rest) all_proposals m =
     (case map_of all_proposals proposer of
        None \<Rightarrow> Inl KeyError
      | Some proposals \<Rightarrow>
          (if length indices \<noteq> 0 then
             (case scatter proposals (enumerate 0 indices) m of
                Inl e \<Rightarrow> Inl e
              | Inr m' \<Rightarrow> merge_all rest all_proposals m')
           else merge_all rest all_proposals m))"

text \<open>
  \<open>torch.stack\<close>: \<open>TypeError\<close> on an element that is not a tensor, \<open>RuntimeError\<close> on an
  empty list and on tensors of different shapes.
\<close>

definition torch_stack :: "('a \<Rightarrow> 's) \<Rightarrow> 'a option list \<Rightarrow> error + 'a list" where
  "torch_stack shape tensors =
     (if None \<in> set tensors then Inl TypeError
      else if tensors = [] then Inl RuntimeError
      else if list_all (\<lambda>t. shape t = shape (the (hd tensors))) (map the tensors)
        then Inr (map the tensors)
        else Inl RuntimeError)"

definition stack_merged :: "merged \<Rightarrow> error + speculative_proposals" where
  "stack_merged m =
     (case m of (merged_token_ids, merged_probs, merged_lens) \<Rightarrow>
        (case torch_stack length merged_token_ids of
           Inl e \<Rightarrow> Inl e
         | Inr token_ids \<Rightarrow>
             (case torch_stack (map length) merged_probs of
                Inl e \<Rightarrow> Inl e
              | Inr probs \<Rightarrow>
                  (case torch_stack (\<lambda>l. ()) merged_lens of
                     Inl e \<Rightarrow> Inl e
                   | Inr lens \<Rightarrow>
                       Inr \<lparr>proposal_token_ids = token_ids, proposal_probs = probs,
                            proposal_lens = lens\<rparr>))))"

definition get_combined_spec_proposals ::
  "workers \<Rightarrow> execute_model_request \<Rightarrow> int set \<Rightarrow> speculative_proposals outcome"
where
  "get_combined_spec_proposals ws execute_model_req seq_ids_with_bonus_token_in_last_step =
     (case partition_scan (valid_proposers ws) (enumerate 0 execute_model_req) [] [] of
        (proposer_requests, original_indices) \<Rightarrow>
          (case submit_all ws proposer_requests seq_ids_with_bonus_token_in_last_step of
             (failed, futures) \<Rightarrow>
               \<lparr>result =
                  (case failed of
                     Some e \<Rightarrow> Inl e
                   | None \<Rightarrow>
                       (case collect_results futures [] of
                          Inl e \<Rightarrow> Inl e
                        | Inr all_proposals \<Rightarrow>
                            (let n = length execute_model_req in
                             case merge_all original_indices all_proposals
                                    (replicate n None, replicate n None, replicate n None) of
                               Inl e \<Rightarrow> Inl e
                             | Inr m \<Rightarrow> stack_merged m))),
                calls = map (\<lambda>(proposer, sq_list, future).
                               GetSpecProposalsCall proposer sq_list) futures,
                batch_after = execute_model_req\<rparr>))"

section \<open>Cache operations\<close>

fun get_cache_block_size_bytes :: "workers \<Rightarrow> (error + int) \<times> backend_call list" where
  "get_cache_block_size_bytes [] = (Inr 0, [])"
| "get_cache_block_size_bytes ((name, w) # rest) =
     (if truthy (is_multi_step_worker_instance (cls w))
      then (get_cache_block_size_bytes_w w, [GetCacheBlockSizeBytesCall name])
      else get_cache_block_size_bytes rest)"

fun determine_num_available_blocks ::
  "workers \<Rightarrow> (error + int \<times> int) \<times> backend_call list"
where
  "determine_num_available_blocks [] = (Inr (- 1, - 1), [])"
| "determine_num_available_blocks ((name, w) # rest) =
     (if truthy (is_multi_step_worker_instance (cls w))
      then (determine_num_available_blocks_w w, [DetermineNumAvailableBlocksCall name])
      else determine_num_available_blocks rest)"

fun initialize_cache ::
  "workers \<Rightarrow> int \<Rightarrow> int \<Rightarrow> (error + unit) \<times> backend_call list"
where
  "initialize_cache [] num_gpu_blocks num_cpu_blocks = (Inr (), [])"
| "initialize_cache ((name, w) # rest) num_gpu_blocks num_cpu_blocks =
     (if truthy (is_multi_step_worker_instance (cls w))
      then (case initialize_cache_w w num_gpu_blocks num_cpu_blocks of
              Inl e \<Rightarrow> (Inl e, [InitializeCacheCall name num_gpu_blocks num_cpu_blocks])
            | Inr u \<Rightarrow>
                apsnd ((#) (InitializeCacheCall name num_gpu_blocks num_cpu_blocks))
                  (initialize_cache rest num_gpu_blocks num_cpu_blocks))
      else initialize_cache rest num_gpu_blocks num_cpu_blocks)"

section \<open>Notions used to state the properties\<close>

text \<open>The proposer names the sequences of a batch carry, in batch order.\<close>

definition assignments :: "sequence_group_metadata list \<Rightarrow> string list" where
  "assignments batch = map get_proposer (List.map_filter spec_decode_params batch)"

text \<open>
  A stub proposer of class \<open>c\<close> that tags every row it produces with \<open>tag\<close>, for the
  concrete instances below.
\<close>

definition stub_worker :: "worker_class \<Rightarrow> int \<Rightarrow> worker" where
  "stub_worker c tag =
     \<lparr>cls = c,
      get_spec_proposals_w = (\<lambda>req bonus.
        Inr \<lparr>proposal_token_ids = map (\<lambda>seq. [tag]) req,
             proposal_probs = map (\<lambda>seq. [[1]]) req,
             proposal_lens = map (\<lambda>seq. 1) req\<rparr>),
      execute_model_w = (\<lambda>req. Inr [SamplerOutput [tag]]),
      get_cache_block_size_bytes_w = Inr 16,
      determine_num_available_blocks_w = Inr (8, 4),
      initialize_cache_w = (\<lambda>g c. Inr ())\<rparr>"

definition seq_with :: "string \<Rightarrow> string \<Rightarrow> sequence_group_metadata" where
  "seq_with rid name =
     \<lparr>request_id = rid, spec_decode_params = Some (SpecDecodeParams name)\<rparr>"

definition seq_without :: "string \<Rightarrow> sequence_group_metadata" where
  "seq_without rid = \<lparr>request_id = rid, spec_decode_params = None\<rparr>"

text \<open>
  The distinct elements of a list in the order of their first occurrences: the key order
  of a Python dict filled while reading the list.
\<close>

fun first_occurrences :: "'a list \<Rightarrow> 'a list" where
  "first_occurrences [] = []"
| "first_occurrences (x # xs) = x # removeAll x (first_occurrences xs)"

text \<open>The names carried by the batch that are keys of the worker dict, in batch order.\<close>

definition valid_assignments :: "workers \<Rightarrow> sequence_group_metadata list \<Rightarrow> string list" where
  "valid_assignments ws batch =
     filter (\<lambda>p. p \<in> set (valid_proposers ws)) (assignments batch)"

text \<open>
  The name a requested name stands for: itself when it is a key of the worker dict,
  \<open>[ngram]\<close> otherwise; and the name a sequence resolves to, when it carries one.
\<close>

definition resolve :: "workers \<Rightarrow> string \<Rightarrow> string" where
  "resolve ws name = (if name \<in> set (valid_proposers ws) then name else ngram)"

definition resolved_name :: "workers \<Rightarrow> sequence_group_metadata \<Rightarrow> string option" where
  "resolved_name ws seq =
     map_option (\<lambda>sd_params. resolve ws (get_proposer sd_params)) (spec_decode_params seq)"

text \<open>The sequence carries a name that resolves to a model-stepping proposer.\<close>

definition resolves_to_stepping :: "workers \<Rightarrow> sequence_group_metadata \<Rightarrow> bool" where
  "resolves_to_stepping ws seq =
     (case resolved_name ws seq of
        None \<Rightarrow> False
      | Some name \<Rightarrow>
          (case map_of ws name of
             None \<Rightarrow> False
           | Some w \<Rightarrow> is_multi_step_worker_instance (cls w) = Some True))"

text \<open>
  The sequence carries a name that is no key of the worker dict; and the sequence with
  such a name replaced by \<open>[ngram]\<close>.
\<close>

definition unknown_assignment :: "workers \<Rightarrow> sequence_group_metadata \<Rightarrow> bool" where
  "unknown_assignment ws seq =
     (case spec_decode_params seq of
        None \<Rightarrow> False
      | Some sd_params \<Rightarrow> get_proposer sd_params \<notin> set (valid_proposers ws))"

definition coerced :: "workers \<Rightarrow> sequence_group_metadata \<Rightarrow> sequence_group_metadata" where
  "coerced ws seq =
     (if unknown_assignment ws seq
      then seq\<lparr>spec_decode_params := Some (SpecDecodeParams ngram)\<rparr> else seq)"

text \<open>The list stored under a key of a dict of lists, empty when the key is absent.\<close>

definition entries_of :: "('k \<times> 'v list) list \<Rightarrow> 'k \<Rightarrow> 'v list" where
  "entries_of d k = (case map_of d k of None \<Rightarrow> [] | Some l \<Rightarrow> l)"

text \<open>
  The sub-batch of a proposer: the sequences that resolve to its name, in batch order; and
  the position sequence \<open>i\<close> has in the sub-batch it belongs to.
\<close>

definition group_members ::
  "workers \<Rightarrow> string \<Rightarrow> sequence_group_metadata list \<Rightarrow> sequence_group_metadata list" where
  "group_members ws name batch = filter (\<lambda>seq. resolved_name ws seq = Some name) batch"

definition position_in_group :: "workers \<Rightarrow> sequence_group_metadata list \<Rightarrow> nat \<Rightarrow> nat" where
  "position_in_group ws batch i =
     length (filter (\<lambda>seq. resolved_name ws seq = resolved_name ws (batch ! i)) (take i batch))"

section \<open>The capability probe\<close>

lemma probe_direct: "is_multi_step_worker_instance MultiStepWorker = Some True"
  by simp

lemma probe_wrapper:
  "is_multi_step_worker_instance (SmallerTpProposerWorker (Some w)) =
     is_multi_step_worker_instance w"
  by simp

lemma probe_proposal_only: "is_multi_step_worker_instance OtherProposerWorker = Some False"
  by simp

text \<open>
  Claim C7. The probe is to answer with a boolean on every proposer: true for a
  \<open>MultiStepWorker\<close>, the inner proposer's answer for a wrapper, false for everything that
  only proposes, a wrapper without inner proposer included. The function is total (it is
  a \<^theory_text>\<open>fun\<close>, the recursion descends into the wrapped proposer) and has no state to
  change; the three lemmas above are the cases that hold. On a \<open>SmallerTpProposerWorker\<close>
  that has no \<open>_worker\<close> attribute the code falls out of the \<open>elif\<close> branch without a
  \<open>return\<close>: the answer is Python's \<open>None\<close>, not \<open>False\<close>, against the declared return type
  \<open>bool\<close>.
\<close>

theorem probe_wrapper_without_inner_returns_none:
  "is_multi_step_worker_instance (SmallerTpProposerWorker None) = None
   \<and> is_multi_step_worker_instance (SmallerTpProposerWorker None) \<noteq> Some False
   \<and> is_multi_step_worker_instance
        (SmallerTpProposerWorker (Some (SmallerTpProposerWorker None))) = None"
  by simp

section \<open>Selection of one proposer for the batch\<close>

text \<open>
  Claim C9. On every batch, a policy other than \<open>proposal_latency\<close>, \<open>popularity\<close> and
  \<open>proposal_quality\<close> raises \<open>ValueError\<close>, and \<open>proposal_quality\<close> raises
  \<open>NotImplementedError\<close>; in both cases no proposer name is returned.
\<close>

theorem policy_errors:
  "(p \<noteq> Some ''proposal_latency'' \<and> p \<noteq> Some ''popularity''
      \<and> p \<noteq> Some ''proposal_quality''
      \<longrightarrow> get_proposer_for_this_step ws (Some batch) p = Inl ValueError)
   \<and> get_proposer_for_this_step ws (Some batch) (Some ''proposal_quality'') =
       Inl NotImplementedError"
  by (simp add: get_proposer_for_this_step_def)

theorem policy_errors_witness:
  "get_proposer_for_this_step [(ngram, stub_worker OtherProposerWorker 0)]
      (Some [seq_with ''r0'' ngram]) (Some ''fastest'') = Inl ValueError
   \<and> get_proposer_for_this_step [(ngram, stub_worker OtherProposerWorker 0)]
      (Some [seq_with ''r0'' ngram]) None = Inl ValueError
   \<and> get_proposer_for_this_step [(ngram, stub_worker OtherProposerWorker 0)]
      (Some [seq_with ''r0'' ngram]) (Some ''proposal_quality'') = Inl NotImplementedError"
  using policy_errors [of "Some ''fastest''" "[(ngram, stub_worker OtherProposerWorker 0)]"
      "[seq_with ''r0'' ngram]"]
    policy_errors [of None "[(ngram, stub_worker OtherProposerWorker 0)]"
      "[seq_with ''r0'' ngram]"]
  by simp

lemma latency_scan_breaks_on_ngram:
  "\<exists>seq \<in> set batch. spec_decode_params seq = Some (SpecDecodeParams ngram) \<Longrightarrow>
   latency_scan valid batch c n =
     (ngram, n + Suc (length (takeWhile
        (\<lambda>seq. spec_decode_params seq \<noteq> Some (SpecDecodeParams ngram)) batch)))"
proof (induction batch arbitrary: c n)
  case Nil
  then show ?case by simp
next
  case (Cons seq rest)
  show ?case
  proof (cases "spec_decode_params seq")
    case None
    with Cons show ?thesis by auto
  next
    case (Some sd)
    show ?thesis
    proof (cases "get_proposer sd = ngram")
      case True
      then have "sd = SpecDecodeParams ngram" by (cases sd) simp
      with Some show ?thesis by simp
    next
      case False
      then have ne: "sd \<noteq> SpecDecodeParams ngram" by auto
      with Cons.prems Some
      have ex: "\<exists>s \<in> set rest. spec_decode_params s = Some (SpecDecodeParams ngram)"
        by auto
      show ?thesis using Some False ne Cons.IH [OF ex] by (simp add: Let_def)
    qed
  qed
qed

text \<open>
  Claim C4. Under \<open>proposal_latency\<close>, a batch in which some sequence asks for \<open>[ngram]\<close>
  gets \<open>[ngram]\<close>, whatever the other sequences ask for and wherever that sequence
  stands; the loop visits the sequences up to the first such one and no further.
\<close>

theorem latency_fallback_wins:
  assumes "\<exists>seq \<in> set batch. spec_decode_params seq = Some (SpecDecodeParams ngram)"
  shows "get_proposer_for_this_step ws (Some batch) (Some ''proposal_latency'') = Inr ngram
    \<and> snd (latency_scan (valid_proposers ws) batch ngram 0) =
        Suc (length (takeWhile
          (\<lambda>seq. spec_decode_params seq \<noteq> Some (SpecDecodeParams ngram)) batch))"
  using latency_scan_breaks_on_ngram [OF assms, of "valid_proposers ws" ngram 0]
  by (simp add: get_proposer_for_this_step_def)

theorem latency_fallback_wins_witness:
  "get_proposer_for_this_step
      [(ngram, stub_worker OtherProposerWorker 0), (''draft'', stub_worker MultiStepWorker 1)]
      (Some [seq_with ''r0'' ''draft'', seq_with ''r1'' ngram, seq_with ''r2'' ''draft''])
      (Some ''proposal_latency'') = Inr ngram
   \<and> snd (latency_scan [ngram, ''draft'']
        [seq_with ''r0'' ''draft'', seq_with ''r1'' ngram, seq_with ''r2'' ''draft'']
        ngram 0) = 2"
proof -
  have h: "\<exists>seq \<in> set [seq_with ''r0'' ''draft'', seq_with ''r1'' ngram,
      seq_with ''r2'' ''draft'']. spec_decode_params seq = Some (SpecDecodeParams ngram)"
    by (simp add: seq_with_def)
  show ?thesis
    using latency_fallback_wins [OF h,
        of "[(ngram, stub_worker OtherProposerWorker 0),
             (''draft'', stub_worker MultiStepWorker 1)]"]
    by (simp add: seq_with_def valid_proposers_def ngram_def)
qed

lemma latency_scan_keeps_last_valid:
  "ngram \<notin> set (assignments batch) \<Longrightarrow>
   fst (latency_scan valid batch c n) =
     (let vs = filter (\<lambda>p. p \<in> set valid) (assignments batch)
      in if vs = [] then c else last vs)"
proof (induction batch arbitrary: c n)
  case Nil
  then show ?case by (simp add: assignments_def)
next
  case (Cons seq rest)
  show ?case
  proof (cases "spec_decode_params seq")
    case None
    with Cons show ?thesis by (simp add: assignments_def)
  next
    case (Some sd)
    with Cons.prems
    have ne: "get_proposer sd \<noteq> ngram" and r: "ngram \<notin> set (assignments rest)"
      by (auto simp: assignments_def)
    show ?thesis using Some ne Cons.IH [OF r]
      by (simp add: assignments_def Let_def)
  qed
qed

text \<open>
  Claim C5. Under \<open>proposal_latency\<close>, on a batch in which no sequence asks for
  \<open>[ngram]\<close>, the answer is the name asked for by the last sequence whose name is a key
  of the worker dict (unknown names are passed over); when there is none, and so when the
  batch is empty or no sequence carries a name, the answer is \<open>[ngram]\<close>.
\<close>

theorem latency_last_valid_wins:
  assumes "ngram \<notin> set (assignments batch)"
  shows "get_proposer_for_this_step ws (Some batch) (Some ''proposal_latency'') =
      Inr (let vs = filter (\<lambda>p. p \<in> set (valid_proposers ws)) (assignments batch)
           in if vs = [] then ngram else last vs)
    \<and> (assignments batch = [] \<longrightarrow>
         get_proposer_for_this_step ws (Some batch) (Some ''proposal_latency'') = Inr ngram)"
  using latency_scan_keeps_last_valid [OF assms, of "valid_proposers ws" ngram 0]
  by (simp add: get_proposer_for_this_step_def Let_def)

theorem latency_last_valid_wins_witness:
  "get_proposer_for_this_step
      [(ngram, stub_worker OtherProposerWorker 0), (''A'', stub_worker MultiStepWorker 1),
       (''B'', stub_worker MultiStepWorker 2)]
      (Some [seq_with ''r0'' ''A'', seq_with ''r1'' ''B'', seq_without ''r2'',
             seq_with ''r3'' ''A'', seq_with ''r4'' ''bogus''])
      (Some ''proposal_latency'') = Inr ''A''
   \<and> get_proposer_for_this_step
      [(ngram, stub_worker OtherProposerWorker 0), (''A'', stub_worker MultiStepWorker 1),
       (''B'', stub_worker MultiStepWorker 2)]
      (Some [seq_without ''r0'']) (Some ''proposal_latency'') = Inr ngram"
proof -
  have h1: "ngram \<notin> set (assignments [seq_with ''r0'' ''A'', seq_with ''r1'' ''B'',
      seq_without ''r2'', seq_with ''r3'' ''A'', seq_with ''r4'' ''bogus''])"
    by (simp add: assignments_def seq_with_def seq_without_def ngram_def)
  have h2: "ngram \<notin> set (assignments [seq_without ''r0''])"
    by (simp add: assignments_def seq_without_def)
  show ?thesis
    using latency_last_valid_wins [OF h1,
        of "[(ngram, stub_worker OtherProposerWorker 0), (''A'', stub_worker MultiStepWorker 1),
             (''B'', stub_worker MultiStepWorker 2)]"]
      latency_last_valid_wins [OF h2,
        of "[(ngram, stub_worker OtherProposerWorker 0), (''A'', stub_worker MultiStepWorker 1),
             (''B'', stub_worker MultiStepWorker 2)]"]
    by (simp add: assignments_def seq_with_def seq_without_def valid_proposers_def ngram_def)
qed

lemma set_first_occurrences [simp]: "set (first_occurrences xs) = set xs"
  by (induction xs) auto

lemma first_occurrences_Nil_iff [simp]: "first_occurrences xs = [] \<longleftrightarrow> xs = []"
  by (cases xs) auto

lemma distinct_first_occurrences [simp]: "distinct (first_occurrences xs)"
  by (induction xs) (auto simp: distinct_removeAll)

lemma first_occurrences_snoc:
  "first_occurrences (h @ [p]) =
     (if p \<in> set h then first_occurrences h else first_occurrences h @ [p])"
  by (induction h) auto

lemma removeAll_eq_split:
  "removeAll x ys = a @ r # b \<Longrightarrow>
   \<exists>a' b'. ys = a' @ r # b' \<and> removeAll x a' = a \<and> removeAll x b' = b"
proof (induction ys arbitrary: a)
  case Nil then show ?case by simp
next
  case (Cons y ys)
  show ?case
  proof (cases "y = x")
    case True
    with Cons.prems have "removeAll x ys = a @ r # b" by simp
    from Cons.IH [OF this] obtain a' b' where
      "ys = a' @ r # b'" "removeAll x a' = a" "removeAll x b' = b" by blast
    then have "y # ys = (y # a') @ r # b' \<and> removeAll x (y # a') = a \<and> removeAll x b' = b"
      using True by simp
    then show ?thesis by blast
  next
    case False
    with Cons.prems have eq: "y # removeAll x ys = a @ r # b" by simp
    show ?thesis
    proof (cases a)
      case Nil
      with eq have "y = r" "removeAll x ys = b" by simp_all
      then have "y # ys = [] @ r # ys \<and> removeAll x [] = a \<and> removeAll x ys = b"
        using Nil by simp
      then show ?thesis by blast
    next
      case (Cons a0 as)
      with eq have "y = a0" "removeAll x ys = as @ r # b" by simp_all
      from Cons.IH [OF this(2)] obtain a' b' where
        "ys = a' @ r # b'" "removeAll x a' = as" "removeAll x b' = b" by blast
      then have "y # ys = (y # a') @ r # b' \<and> removeAll x (y # a') = a \<and> removeAll x b' = b"
        using False Cons \<open>y = a0\<close> by simp
      then show ?thesis by blast
    qed
  qed
qed

lemma first_occurrences_prefix:
  "first_occurrences vs = pre @ r # post \<Longrightarrow> set pre = set (takeWhile (\<lambda>x. x \<noteq> r) vs)"
proof (induction vs arbitrary: pre post)
  case Nil then show ?case by simp
next
  case (Cons x xs)
  show ?case
  proof (cases "x = r")
    case True
    have d: "distinct (pre @ r # post)"
      using Cons.prems distinct_first_occurrences [of "x # xs"] by simp
    have "pre = []"
    proof (cases pre)
      case Nil then show ?thesis .
    next
      case (Cons p ps)
      with Cons.prems True have "p = r" by simp
      with d Cons show ?thesis by simp
    qed
    with True show ?thesis by simp
  next
    case False
    with Cons.prems obtain pre' where pre: "pre = x # pre'"
      and eq: "removeAll x (first_occurrences xs) = pre' @ r # post"
      by (cases pre) auto
    from removeAll_eq_split [OF eq] obtain a' b' where
      fo: "first_occurrences xs = a' @ r # b'" and a': "removeAll x a' = pre'" by blast
    from Cons.IH [OF fo] have "set a' = set (takeWhile (\<lambda>x. x \<noteq> r) xs)" .
    with a' pre False show ?thesis by auto
  qed
qed

lemma map_fst_map_entry [simp]: "map fst (AList.map_entry k f xs) = map fst xs"
  by (induction xs) auto

lemma count_proposers_inv:
  assumes "map fst pc = first_occurrences h"
    and "\<And>p. map_of pc p = (if p \<in> set h then Some (int (count_list h p)) else None)"
  shows "map fst (count_proposers valid batch pc) =
           first_occurrences (h @ filter (\<lambda>p. p \<in> set valid) (assignments batch))
       \<and> (\<forall>p. map_of (count_proposers valid batch pc) p =
           (if p \<in> set (h @ filter (\<lambda>p. p \<in> set valid) (assignments batch))
            then Some (int (count_list (h @ filter (\<lambda>p. p \<in> set valid) (assignments batch)) p))
            else None))"
  using assms
proof (induction batch arbitrary: pc h)
  case Nil
  then show ?case by (simp add: assignments_def)
next
  case (Cons seq rest)
  show ?case
  proof (cases "spec_decode_params seq")
    case None
    then show ?thesis using Cons.IH [OF Cons.prems] by (simp add: assignments_def)
  next
    case (Some sd)
    let ?p = "get_proposer sd"
    show ?thesis
    proof (cases "?p \<in> set valid")
      case False
      with Some show ?thesis using Cons.IH [OF Cons.prems] by (simp add: assignments_def)
    next
      case True
      let ?pc0 = "if ?p \<notin> set (map fst pc) then AList.update ?p 0 pc else pc"
      let ?pc' = "AList.map_entry ?p (\<lambda>c. c + 1) ?pc0"
      have keys: "set (map fst pc) = set h" using Cons.prems(1) by simp
      have k: "map fst ?pc' = first_occurrences (h @ [?p])"
        using Cons.prems(1) keys by (simp add: first_occurrences_snoc update_keys)
      have m: "\<And>q. map_of ?pc' q =
          (if q \<in> set (h @ [?p]) then Some (int (count_list (h @ [?p]) q)) else None)"
        using Cons.prems(2) keys
        by (auto simp: map_of_map_entry update_conv')
      from Cons.IH [OF k m] Some True show ?thesis
        by (simp add: assignments_def Let_def)
    qed
  qed
qed

lemma py_max_from_first_max:
  "\<exists>v. (best = (py_max_from best rest, v) \<and> (\<forall>kv \<in> set rest. snd kv \<le> v))
     \<or> (\<exists>pre post. rest = pre @ (py_max_from best rest, v) # post \<and> snd best < v
          \<and> (\<forall>kv \<in> set pre. snd kv < v) \<and> (\<forall>kv \<in> set post. snd kv \<le> v))"
proof (induction rest arbitrary: best)
  case Nil
  show ?case by (cases best) simp
next
  case (Cons kv rest)
  show ?case
  proof (cases "snd kv > snd best")
    case True
    then have r: "py_max_from best (kv # rest) = py_max_from kv rest" by simp
    from Cons.IH [of kv] obtain v where
      d: "(kv = (py_max_from kv rest, v) \<and> (\<forall>x \<in> set rest. snd x \<le> v))
        \<or> (\<exists>pre post. rest = pre @ (py_max_from kv rest, v) # post \<and> snd kv < v
          \<and> (\<forall>x \<in> set pre. snd x < v) \<and> (\<forall>x \<in> set post. snd x \<le> v))" by blast
    then show ?thesis
    proof
      assume a: "kv = (py_max_from kv rest, v) \<and> (\<forall>x \<in> set rest. snd x \<le> v)"
      then have "kv # rest = [] @ (py_max_from best (kv # rest), v) # rest \<and> snd best < v
          \<and> (\<forall>x \<in> set []. snd x < v) \<and> (\<forall>x \<in> set rest. snd x \<le> v)"
        using True r by (metis append_Nil empty_iff list.set(1) snd_conv)
      then show ?thesis by blast
    next
      assume "\<exists>pre post. rest = pre @ (py_max_from kv rest, v) # post \<and> snd kv < v
          \<and> (\<forall>x \<in> set pre. snd x < v) \<and> (\<forall>x \<in> set post. snd x \<le> v)"
      then obtain pre post where
        b: "rest = pre @ (py_max_from kv rest, v) # post" "snd kv < v"
          "\<forall>x \<in> set pre. snd x < v" "\<forall>x \<in> set post. snd x \<le> v" by blast
      have "kv # rest = (kv # pre) @ (py_max_from best (kv # rest), v) # post \<and> snd best < v
          \<and> (\<forall>x \<in> set (kv # pre). snd x < v) \<and> (\<forall>x \<in> set post. snd x \<le> v)"
        using b True r by auto
      then show ?thesis by blast
    qed
  next
    case False
    then have r: "py_max_from best (kv # rest) = py_max_from best rest" by simp
    from Cons.IH [of best] obtain v where
      d: "(best = (py_max_from best rest, v) \<and> (\<forall>x \<in> set rest. snd x \<le> v))
        \<or> (\<exists>pre post. rest = pre @ (py_max_from best rest, v) # post \<and> snd best < v
          \<and> (\<forall>x \<in> set pre. snd x < v) \<and> (\<forall>x \<in> set post. snd x \<le> v))" by blast
    then show ?thesis
    proof
      assume a: "best = (py_max_from best rest, v) \<and> (\<forall>x \<in> set rest. snd x \<le> v)"
      then have "snd best = v" by (metis snd_conv)
      with a False r have "best = (py_max_from best (kv # rest), v)
          \<and> (\<forall>x \<in> set (kv # rest). snd x \<le> v)" by auto
      then show ?thesis by blast
    next
      assume "\<exists>pre post. rest = pre @ (py_max_from best rest, v) # post \<and> snd best < v
          \<and> (\<forall>x \<in> set pre. snd x < v) \<and> (\<forall>x \<in> set post. snd x \<le> v)"
      then obtain pre post where
        b: "rest = pre @ (py_max_from best rest, v) # post" "snd best < v"
          "\<forall>x \<in> set pre. snd x < v" "\<forall>x \<in> set post. snd x \<le> v" by blast
      have "kv # rest = (kv # pre) @ (py_max_from best (kv # rest), v) # post \<and> snd best < v
          \<and> (\<forall>x \<in> set (kv # pre). snd x < v) \<and> (\<forall>x \<in> set post. snd x \<le> v)"
        using b False r by auto
      then show ?thesis by blast
    qed
  qed
qed

lemma py_max_first_max:
  assumes "d \<noteq> []"
  shows "\<exists>r v pre post. py_max d = Inr r \<and> d = pre @ (r, v) # post
     \<and> (\<forall>kv \<in> set pre. snd kv < v) \<and> (\<forall>kv \<in> set post. snd kv \<le> v)"
proof -
  from assms obtain kv rest where d: "d = kv # rest" by (cases d) auto
  from py_max_from_first_max [of kv rest] obtain v where
    c: "(kv = (py_max_from kv rest, v) \<and> (\<forall>x \<in> set rest. snd x \<le> v))
     \<or> (\<exists>pre post. rest = pre @ (py_max_from kv rest, v) # post \<and> snd kv < v
          \<and> (\<forall>x \<in> set pre. snd x < v) \<and> (\<forall>x \<in> set post. snd x \<le> v))" by blast
  then show ?thesis
  proof
    assume a: "kv = (py_max_from kv rest, v) \<and> (\<forall>x \<in> set rest. snd x \<le> v)"
    then have "py_max d = Inr (py_max_from kv rest) \<and> d = [] @ (py_max_from kv rest, v) # rest
      \<and> (\<forall>x \<in> set []. snd x < v) \<and> (\<forall>x \<in> set rest. snd x \<le> v)"
      using d by simp
    then show ?thesis by blast
  next
    assume "\<exists>pre post. rest = pre @ (py_max_from kv rest, v) # post \<and> snd kv < v
          \<and> (\<forall>x \<in> set pre. snd x < v) \<and> (\<forall>x \<in> set post. snd x \<le> v)"
    then obtain pre post where
      b: "rest = pre @ (py_max_from kv rest, v) # post" "snd kv < v"
        "\<forall>x \<in> set pre. snd x < v" "\<forall>x \<in> set post. snd x \<le> v" by blast
    have "py_max d = Inr (py_max_from kv rest)
      \<and> d = (kv # pre) @ (py_max_from kv rest, v) # post
      \<and> (\<forall>x \<in> set (kv # pre). snd x < v) \<and> (\<forall>x \<in> set post. snd x \<le> v)"
      using b d by auto
    then show ?thesis by blast
  qed
qed


lemma count_proposers_tally:
  "map fst (count_proposers (valid_proposers ws) batch []) =
     first_occurrences (valid_assignments ws batch)
   \<and> (\<forall>p. map_of (count_proposers (valid_proposers ws) batch []) p =
        (if p \<in> set (valid_assignments ws batch)
         then Some (int (count_list (valid_assignments ws batch) p)) else None))"
  using count_proposers_inv [of "[]" "[]" "valid_proposers ws" batch]
  by (simp add: valid_assignments_def)

text \<open>
  Claim C6. Under \<open>popularity\<close>, the count kept for a name is the number of sequences
  that carry it, for the names that are keys of the worker dict only (sequences without a
  name and unknown names count for nothing). The answer is a name with the largest count;
  among several, the one whose first occurrence in the batch comes first: every name seen
  before the first occurrence of the answer has a strictly smaller count. When no sequence
  counts, the answer is \<open>[ngram]\<close>.
\<close>

theorem popularity_first_max:
  "(\<forall>p. map_of (count_proposers (valid_proposers ws) batch []) p =
        (if p \<in> set (valid_assignments ws batch)
         then Some (int (count_list (valid_assignments ws batch) p)) else None))
   \<and> (valid_assignments ws batch = [] \<longrightarrow>
        get_proposer_for_this_step ws (Some batch) (Some ''popularity'') = Inr ngram)
   \<and> (valid_assignments ws batch \<noteq> [] \<longrightarrow>
        (\<exists>r. get_proposer_for_this_step ws (Some batch) (Some ''popularity'') = Inr r
           \<and> r \<in> set (valid_assignments ws batch)
           \<and> (\<forall>q \<in> set (valid_assignments ws batch).
                count_list (valid_assignments ws batch) q
                  \<le> count_list (valid_assignments ws batch) r)
           \<and> (\<forall>q \<in> set (takeWhile (\<lambda>x. x \<noteq> r) (valid_assignments ws batch)).
                count_list (valid_assignments ws batch) q
                  < count_list (valid_assignments ws batch) r)))"
proof -
  let ?vs = "valid_assignments ws batch"
  let ?pc = "count_proposers (valid_proposers ws) batch []"
  have keys: "map fst ?pc = first_occurrences ?vs"
    and tally: "\<And>p. map_of ?pc p =
        (if p \<in> set ?vs then Some (int (count_list ?vs p)) else None)"
    using count_proposers_tally [of ws batch] by simp_all
  have dist: "distinct (map fst ?pc)" using keys by simp
  have val: "\<And>k c. (k, c) \<in> set ?pc \<Longrightarrow> k \<in> set ?vs \<and> c = int (count_list ?vs k)"
  proof -
    fix k c assume "(k, c) \<in> set ?pc"
    then have "map_of ?pc k = Some c" using dist by simp
    then show "k \<in> set ?vs \<and> c = int (count_list ?vs k)"
      using tally [of k] by (auto split: if_splits)
  qed
  have empty: "?vs = [] \<Longrightarrow>
      get_proposer_for_this_step ws (Some batch) (Some ''popularity'') = Inr ngram"
  proof -
    assume "?vs = []"
    then have "map fst ?pc = []" using keys by simp
    then have "?pc = []" by simp
    then show ?thesis by (simp add: get_proposer_for_this_step_def)
  qed
  have nonempty: "\<exists>r. get_proposer_for_this_step ws (Some batch) (Some ''popularity'') = Inr r
           \<and> r \<in> set ?vs
           \<and> (\<forall>q \<in> set ?vs. count_list ?vs q \<le> count_list ?vs r)
           \<and> (\<forall>q \<in> set (takeWhile (\<lambda>x. x \<noteq> r) ?vs). count_list ?vs q < count_list ?vs r)"
    if ne: "?vs \<noteq> []"
  proof -
    have pcne: "?pc \<noteq> []"
    proof
      assume "?pc = []"
      then have "first_occurrences ?vs = []" using keys by simp
      with ne show False by simp
    qed
    from py_max_first_max [OF pcne] obtain r v pre post where
      mx: "py_max ?pc = Inr r" and split: "?pc = pre @ (r, v) # post"
      and lt: "\<forall>kv \<in> set pre. snd kv < v" and le: "\<forall>kv \<in> set post. snd kv \<le> v"
      by blast
    have res: "get_proposer_for_this_step ws (Some batch) (Some ''popularity'') = Inr r"
      using mx pcne by (simp add: get_proposer_for_this_step_def)
    have "(r, v) \<in> set ?pc" using split by (metis in_set_conv_decomp)
    from val [OF this] have rin: "r \<in> set ?vs" and v: "v = int (count_list ?vs r)" by simp_all
    have all: "\<forall>q \<in> set ?vs. count_list ?vs q \<le> count_list ?vs r"
    proof
      fix q assume "q \<in> set ?vs"
      then have "map_of ?pc q = Some (int (count_list ?vs q))" using tally [of q] by simp
      then have "(q, int (count_list ?vs q)) \<in> set ?pc" by (rule map_of_SomeD)
      then have "(q, int (count_list ?vs q)) \<in> set pre \<union> {(r, v)} \<union> set post"
        by (subst (asm) split) auto
      then have "int (count_list ?vs q) \<le> v" using lt le by fastforce
      then show "count_list ?vs q \<le> count_list ?vs r" using v by simp
    qed
    have "first_occurrences ?vs = map fst pre @ r # map fst post"
      using keys by (subst (asm) split) simp
    from first_occurrences_prefix [OF this]
    have pre: "set (map fst pre) = set (takeWhile (\<lambda>x. x \<noteq> r) ?vs)" .
    have before: "\<forall>q \<in> set (takeWhile (\<lambda>x. x \<noteq> r) ?vs). count_list ?vs q < count_list ?vs r"
    proof
      fix q assume "q \<in> set (takeWhile (\<lambda>x. x \<noteq> r) ?vs)"
      then have "q \<in> set (map fst pre)" using pre by simp
      then obtain c where qc: "(q, c) \<in> set pre" by auto
      then have "(q, c) \<in> set ?pc" by (subst split) simp
      from val [OF this] have "c = int (count_list ?vs q)" by simp
      moreover have "c < v" using lt qc by fastforce
      ultimately show "count_list ?vs q < count_list ?vs r" using v by simp
    qed
    from res rin all before show ?thesis by blast
  qed
  show ?thesis using tally empty nonempty by blast
qed

theorem popularity_first_max_witness:
  "get_proposer_for_this_step
      [(ngram, stub_worker OtherProposerWorker 0), (''A'', stub_worker MultiStepWorker 1),
       (''B'', stub_worker MultiStepWorker 2)]
      (Some [seq_with ''r0'' ''B'', seq_with ''r1'' ''A'', seq_with ''r2'' ''bogus'',
             seq_without ''r3'', seq_with ''r4'' ''A'', seq_with ''r5'' ''B''])
      (Some ''popularity'') = Inr ''B''"
proof -
  let ?ws = "[(ngram, stub_worker OtherProposerWorker 0), (''A'', stub_worker MultiStepWorker 1),
       (''B'', stub_worker MultiStepWorker 2)]"
  let ?b = "[seq_with ''r0'' ''B'', seq_with ''r1'' ''A'', seq_with ''r2'' ''bogus'',
             seq_without ''r3'', seq_with ''r4'' ''A'', seq_with ''r5'' ''B'']"
  have vs: "valid_assignments ?ws ?b = [''B'', ''A'', ''A'', ''B'']"
    by (simp add: valid_assignments_def assignments_def valid_proposers_def seq_with_def
        seq_without_def ngram_def)
  from popularity_first_max [of ?ws ?b] vs
  obtain r where r: "get_proposer_for_this_step ?ws (Some ?b) (Some ''popularity'') = Inr r"
    and b: "\<forall>q \<in> set (takeWhile (\<lambda>x. x \<noteq> r) [''B'', ''A'', ''A'', ''B'']).
       count_list [''B'', ''A'', ''A'', ''B''] q < count_list [''B'', ''A'', ''A'', ''B''] r"
    and rin: "r \<in> set [''B'', ''A'', ''A'', ''B'']"
    by auto
  have "r = ''B''"
  proof (rule ccontr)
    assume "r \<noteq> ''B''"
    with rin have "r = ''A''" by simp
    with b show False by simp
  qed
  with r show ?thesis by simp
qed

section \<open>Cache operations without a model-stepping proposer\<close>

lemma no_stepping_size:
  "\<forall>(name, w) \<in> set ws. \<not> truthy (is_multi_step_worker_instance (cls w))
   \<Longrightarrow> get_cache_block_size_bytes ws = (Inr 0, [])"
  by (induction ws) auto

lemma no_stepping_blocks:
  "\<forall>(name, w) \<in> set ws. \<not> truthy (is_multi_step_worker_instance (cls w))
   \<Longrightarrow> determine_num_available_blocks ws = (Inr (- 1, - 1), [])"
  by (induction ws) auto

lemma no_stepping_init:
  "\<forall>(name, w) \<in> set ws. \<not> truthy (is_multi_step_worker_instance (cls w))
   \<Longrightarrow> initialize_cache ws g c = (Inr (), [])"
  by (induction ws) auto

text \<open>
  Claim C10. When no proposer of the worker dict is a model-stepping one, the cache
  operations answer with fixed defaults and call no proposer:
  \<open>determine_num_available_blocks\<close> returns \<open>(-1, -1)\<close>, \<open>get_cache_block_size_bytes\<close>
  returns \<open>0\<close>, and \<open>initialize_cache\<close> returns having called nothing.
\<close>

theorem cache_defaults_without_stepping_worker:
  assumes "\<forall>(name, w) \<in> set ws. is_multi_step_worker_instance (cls w) \<noteq> Some True"
  shows "determine_num_available_blocks ws = (Inr (- 1, - 1), [])
     \<and> get_cache_block_size_bytes ws = (Inr 0, [])
     \<and> initialize_cache ws num_gpu_blocks num_cpu_blocks = (Inr (), [])"
  using assms no_stepping_size [of ws] no_stepping_blocks [of ws] no_stepping_init [of ws]
  by (simp add: truthy_def)

theorem cache_defaults_without_stepping_worker_witness:
  "determine_num_available_blocks
      [(ngram, stub_worker OtherProposerWorker 0),
       (''tp'', stub_worker (SmallerTpProposerWorker None) 1)] = (Inr (- 1, - 1), [])
   \<and> get_cache_block_size_bytes
      [(ngram, stub_worker OtherProposerWorker 0),
       (''tp'', stub_worker (SmallerTpProposerWorker None) 1)] = (Inr 0, [])
   \<and> initialize_cache
      [(ngram, stub_worker OtherProposerWorker 0),
       (''tp'', stub_worker (SmallerTpProposerWorker None) 1)] 8 4 = (Inr (), [])"
proof -
  have h: "\<forall>(name, w) \<in> set [(ngram, stub_worker OtherProposerWorker 0),
      (''tp'', stub_worker (SmallerTpProposerWorker None) 1)].
      is_multi_step_worker_instance (cls w) \<noteq> Some True"
    by (simp add: stub_worker_def)
  show ?thesis
    using cache_defaults_without_stepping_worker [OF h] by simp
qed

section \<open>Delegation of the execution step and rewriting of assignments\<close>

lemma registered_lookup:
  "ngram \<in> set (valid_proposers ws) \<Longrightarrow> \<exists>w. map_of ws (resolve ws name) = Some w"
proof -
  assume "ngram \<in> set (valid_proposers ws)"
  then have "resolve ws name \<in> fst ` set ws"
    by (simp add: resolve_def valid_proposers_def)
  then have "map_of ws (resolve ws name) \<noteq> None"
    by (simp add: map_of_eq_None_iff)
  then show ?thesis by auto
qed

lemma execute_model_scan_step:
  assumes reg: "ngram \<in> set (valid_proposers ws)"
  shows "execute_model_scan ws (seq # rest) =
     (if resolves_to_stepping ws seq
      then (Inr (resolved_name ws seq), coerced ws seq # rest)
      else apsnd ((#) (coerced ws seq)) (execute_model_scan ws rest))"
proof (cases "spec_decode_params seq")
  case None
  then show ?thesis
    by (simp add: resolves_to_stepping_def resolved_name_def coerced_def unknown_assignment_def)
next
  case (Some sd)
  from registered_lookup [OF reg, of "get_proposer sd"] obtain w where
    w: "map_of ws (resolve ws (get_proposer sd)) = Some w" by blast
  show ?thesis
  proof (cases "get_proposer sd \<in> set (valid_proposers ws)")
    case True
    with Some w show ?thesis
      by (simp add: resolves_to_stepping_def resolved_name_def coerced_def
          unknown_assignment_def resolve_def truthy_def set_proposer_def)
  next
    case False
    with Some w show ?thesis
      by (simp add: resolves_to_stepping_def resolved_name_def coerced_def
          unknown_assignment_def resolve_def truthy_def set_proposer_def)
  qed
qed

lemma execute_model_scan_none:
  assumes reg: "ngram \<in> set (valid_proposers ws)"
    and no: "\<not> list_ex (resolves_to_stepping ws) batch"
  shows "execute_model_scan ws batch = (Inr None, map (coerced ws) batch)"
  using no
proof (induction batch)
  case Nil
  show ?case by simp
next
  case (Cons seq rest)
  then show ?case by (simp add: execute_model_scan_step [OF reg] del: execute_model_scan.simps)
qed

lemma execute_model_scan_first:
  assumes reg: "ngram \<in> set (valid_proposers ws)"
    and no: "\<not> list_ex (resolves_to_stepping ws) pre"
    and st: "resolves_to_stepping ws seq"
  shows "execute_model_scan ws (pre @ seq # post) =
     (Inr (resolved_name ws seq), map (coerced ws) pre @ coerced ws seq # post)"
  using no
proof (induction pre)
  case Nil
  show ?case using st by (simp add: execute_model_scan_step [OF reg] del: execute_model_scan.simps)
next
  case (Cons s pre)
  then show ?case by (simp add: execute_model_scan_step [OF reg] del: execute_model_scan.simps)
qed

lemma stepping_lookup:
  "resolves_to_stepping ws seq \<Longrightarrow>
   \<exists>name w. resolved_name ws seq = Some name \<and> map_of ws name = Some w
     \<and> is_multi_step_worker_instance (cls w) = Some True"
  by (auto simp: resolves_to_stepping_def split: option.splits)

text \<open>
  Claim C8. With \<open>[ngram]\<close> registered (the registry always holds the fallback),
  \<open>execute_model\<close> returns the empty list and calls no proposer when the request is
  absent or its batch is empty, and when no sequence resolves to a model-stepping
  proposer. Otherwise the loop stops at the first sequence that does: the sequences
  before it and that sequence have been looked at (unknown names rewritten), those after
  it are untouched, and the one call made is that proposer's \<open>execute_model\<close> on the
  whole batch, whose result is returned.
\<close>

theorem execute_model_delegation:
  assumes reg: "ngram \<in> set (valid_proposers ws)"
  shows "execute_model ws None = \<lparr>result = Inr [], calls = [], batch_after = []\<rparr>
    \<and> execute_model ws (Some []) = \<lparr>result = Inr [], calls = [], batch_after = []\<rparr>
    \<and> (\<not> list_ex (resolves_to_stepping ws) batch \<longrightarrow>
         result (execute_model ws (Some batch)) = Inr []
         \<and> calls (execute_model ws (Some batch)) = [])
    \<and> (\<forall>pre seq post.
         batch = pre @ seq # post \<and> \<not> list_ex (resolves_to_stepping ws) pre
           \<and> resolves_to_stepping ws seq \<longrightarrow>
         (\<exists>name w. resolved_name ws seq = Some name \<and> map_of ws name = Some w
            \<and> is_multi_step_worker_instance (cls w) = Some True
            \<and> result (execute_model ws (Some batch)) =
                execute_model_w w (map (coerced ws) pre @ coerced ws seq # post)
            \<and> calls (execute_model ws (Some batch)) =
                [ExecuteModelCall name (map (coerced ws) pre @ coerced ws seq # post)]))"
proof -
  have a: "execute_model ws None = \<lparr>result = Inr [], calls = [], batch_after = []\<rparr>"
    by (simp add: execute_model_def)
  have b: "execute_model ws (Some []) = \<lparr>result = Inr [], calls = [], batch_after = []\<rparr>"
    by (simp add: execute_model_def)
  have c: "result (execute_model ws (Some batch)) = Inr []
         \<and> calls (execute_model ws (Some batch)) = []"
    if "\<not> list_ex (resolves_to_stepping ws) batch"
    using execute_model_scan_none [OF reg that] by (simp add: execute_model_def)
  have d: "\<exists>name w. resolved_name ws seq = Some name \<and> map_of ws name = Some w
            \<and> is_multi_step_worker_instance (cls w) = Some True
            \<and> result (execute_model ws (Some batch)) =
                execute_model_w w (map (coerced ws) pre @ coerced ws seq # post)
            \<and> calls (execute_model ws (Some batch)) =
                [ExecuteModelCall name (map (coerced ws) pre @ coerced ws seq # post)]"
    if h: "batch = pre @ seq # post \<and> \<not> list_ex (resolves_to_stepping ws) pre
           \<and> resolves_to_stepping ws seq" for pre seq post
  proof -
    from h have batch: "batch = pre @ seq # post"
      and no: "\<not> list_ex (resolves_to_stepping ws) pre"
      and st: "resolves_to_stepping ws seq" by simp_all
    from stepping_lookup [OF st] obtain name w where
      nw: "resolved_name ws seq = Some name" "map_of ws name = Some w"
        "is_multi_step_worker_instance (cls w) = Some True" by blast
    have "execute_model ws (Some batch) =
        \<lparr>result = execute_model_w w (map (coerced ws) pre @ coerced ws seq # post),
         calls = [ExecuteModelCall name (map (coerced ws) pre @ coerced ws seq # post)],
         batch_after = map (coerced ws) pre @ coerced ws seq # post\<rparr>"
      using execute_model_scan_first [OF reg no st, of post] nw batch
      by (simp add: execute_model_def)
    with nw show ?thesis by simp
  qed
  from a b c d show ?thesis by blast
qed


theorem execute_model_delegation_witness:
  "execute_model [(ngram, stub_worker OtherProposerWorker 0),
                  (''draft'', stub_worker MultiStepWorker 1)] None =
     \<lparr>result = Inr [], calls = [], batch_after = []\<rparr>
   \<and> result (execute_model [(ngram, stub_worker OtherProposerWorker 0),
                  (''draft'', stub_worker MultiStepWorker 1)]
        (Some [seq_with ''r0'' ngram, seq_without ''r1'', seq_with ''r2'' ''bogus''])) = Inr []
   \<and> calls (execute_model [(ngram, stub_worker OtherProposerWorker 0),
                  (''draft'', stub_worker MultiStepWorker 1)]
        (Some [seq_with ''r0'' ngram, seq_without ''r1'', seq_with ''r2'' ''bogus''])) = []
   \<and> result (execute_model [(ngram, stub_worker OtherProposerWorker 0),
                  (''draft'', stub_worker MultiStepWorker 1)]
        (Some [seq_with ''r0'' ''bogus'', seq_with ''r1'' ''draft'', seq_with ''r2'' ''bogus'']))
       = Inr [SamplerOutput [1]]
   \<and> calls (execute_model [(ngram, stub_worker OtherProposerWorker 0),
                  (''draft'', stub_worker MultiStepWorker 1)]
        (Some [seq_with ''r0'' ''bogus'', seq_with ''r1'' ''draft'', seq_with ''r2'' ''bogus'']))
       = [ExecuteModelCall ''draft''
            [seq_with ''r0'' ngram, seq_with ''r1'' ''draft'', seq_with ''r2'' ''bogus'']]"
proof -
  let ?ws = "[(ngram, stub_worker OtherProposerWorker 0),
              (''draft'', stub_worker MultiStepWorker 1)]"
  let ?quiet = "[seq_with ''r0'' ngram, seq_without ''r1'', seq_with ''r2'' ''bogus'']"
  let ?mixed = "[seq_with ''r0'' ''bogus'', seq_with ''r1'' ''draft'', seq_with ''r2'' ''bogus'']"
  have reg: "ngram \<in> set (valid_proposers ?ws)" by (simp add: valid_proposers_def)
  have st0: "\<not> resolves_to_stepping ?ws (seq_with ''r0'' ngram)"
    and st1: "\<not> resolves_to_stepping ?ws (seq_without ''r1'')"
    and st2: "\<not> resolves_to_stepping ?ws (seq_with ''r2'' ''bogus'')"
    and st3: "resolves_to_stepping ?ws (seq_with ''r1'' ''draft'')"
    and st4: "\<not> resolves_to_stepping ?ws (seq_with ''r0'' ''bogus'')"
    by (simp_all add: resolves_to_stepping_def resolved_name_def resolve_def
        valid_proposers_def seq_with_def seq_without_def stub_worker_def ngram_def)
  have quiet: "\<not> list_ex (resolves_to_stepping ?ws) ?quiet" using st0 st1 st2 by simp
  have co: "coerced ?ws (seq_with ''r0'' ''bogus'') = seq_with ''r0'' ngram"
    "coerced ?ws (seq_with ''r1'' ''draft'') = seq_with ''r1'' ''draft''"
    by (simp_all add: coerced_def unknown_assignment_def valid_proposers_def seq_with_def
        ngram_def)
  have rn: "resolved_name ?ws (seq_with ''r1'' ''draft'') = Some ''draft''"
    by (simp add: resolved_name_def resolve_def valid_proposers_def seq_with_def)
  have w: "map_of ?ws ''draft'' = Some (stub_worker MultiStepWorker 1)"
    by (simp add: ngram_def)
  have split: "?mixed = [seq_with ''r0'' ''bogus''] @ seq_with ''r1'' ''draft''
      # [seq_with ''r2'' ''bogus''] \<and> \<not> list_ex (resolves_to_stepping ?ws) [seq_with ''r0'' ''bogus'']
      \<and> resolves_to_stepping ?ws (seq_with ''r1'' ''draft'')"
    using st3 st4 by simp
  from execute_model_delegation [OF reg, of ?quiet] quiet
  have q: "execute_model ?ws None = \<lparr>result = Inr [], calls = [], batch_after = []\<rparr>"
    "result (execute_model ?ws (Some ?quiet)) = Inr []"
    "calls (execute_model ?ws (Some ?quiet)) = []" by blast+
  from execute_model_delegation [OF reg, of ?mixed] split
  obtain name w where
    m: "resolved_name ?ws (seq_with ''r1'' ''draft'') = Some name" "map_of ?ws name = Some w"
      "result (execute_model ?ws (Some ?mixed)) =
         execute_model_w w (map (coerced ?ws) [seq_with ''r0'' ''bogus'']
           @ coerced ?ws (seq_with ''r1'' ''draft'') # [seq_with ''r2'' ''bogus''])"
      "calls (execute_model ?ws (Some ?mixed)) =
         [ExecuteModelCall name (map (coerced ?ws) [seq_with ''r0'' ''bogus'']
           @ coerced ?ws (seq_with ''r1'' ''draft'') # [seq_with ''r2'' ''bogus''])]"
    by blast
  from m(1) rn have n: "name = ''draft''" by simp
  with m(2) w have ww: "w = stub_worker MultiStepWorker 1" by simp
  have "result (execute_model ?ws (Some ?mixed)) = Inr [SamplerOutput [1]]"
    using m(3) ww co by (simp add: stub_worker_def)
  moreover have "calls (execute_model ?ws (Some ?mixed)) = [ExecuteModelCall ''draft''
            [seq_with ''r0'' ngram, seq_with ''r1'' ''draft'', seq_with ''r2'' ''bogus'']]"
    using m(4) n co by simp
  ultimately show ?thesis using q by simp
qed

lemma batch_after_execute_model:
  "batch_after (execute_model ws (Some batch)) = snd (execute_model_scan ws batch)"
  by (simp add: execute_model_def split: prod.splits sum.splits option.splits)

lemma execute_model_scan_closed:
  assumes reg: "ngram \<in> set (valid_proposers ws)"
  shows "snd (execute_model_scan ws batch) =
     map (coerced ws) (take (Suc (length (takeWhile (\<lambda>s. \<not> resolves_to_stepping ws s) batch))) batch)
       @ drop (Suc (length (takeWhile (\<lambda>s. \<not> resolves_to_stepping ws s) batch))) batch"
proof (induction batch)
  case Nil
  show ?case by simp
next
  case (Cons seq rest)
  then show ?case by (simp add: execute_model_scan_step [OF reg] del: execute_model_scan.simps)
qed

lemma coerced_prefix_nth:
  "i < length batch \<Longrightarrow>
   (map f (take k batch) @ drop k batch) ! i = (if i < k then f (batch ! i) else batch ! i)"
  by (simp add: nth_append min_def)

text \<open>
  Claim C2, as amended. Only \<open>execute_model\<close> rewrites assignments, and only on the
  part of the batch its loop visits: with \<open>[ngram]\<close> registered, after \<open>execute_model\<close>
  every sequence up to and including the first one that resolves to a model-stepping
  proposer (every sequence when there is none) that named an unknown proposer names
  \<open>[ngram]\<close>, and every other sequence is as it was. \<open>get_spec_proposals\<close> and
  \<open>_get_combined_spec_proposals\<close> leave every assignment as it was.
\<close>

theorem coercion_scope:
  assumes reg: "ngram \<in> set (valid_proposers ws)"
  shows "length (batch_after (execute_model ws (Some batch))) = length batch
    \<and> (\<forall>i < length batch.
         batch_after (execute_model ws (Some batch)) ! i =
           (if i \<le> length (takeWhile (\<lambda>s. \<not> resolves_to_stepping ws s) batch)
               \<and> unknown_assignment ws (batch ! i)
            then (batch ! i)\<lparr>spec_decode_params := Some (SpecDecodeParams ngram)\<rparr>
            else batch ! i))
    \<and> batch_after (get_spec_proposals ws batch bonus) = batch
    \<and> batch_after (get_combined_spec_proposals ws batch bonus) = batch"
proof -
  let ?k = "Suc (length (takeWhile (\<lambda>s. \<not> resolves_to_stepping ws s) batch))"
  have eq: "batch_after (execute_model ws (Some batch)) =
      map (coerced ws) (take ?k batch) @ drop ?k batch"
    using execute_model_scan_closed [OF reg, of batch]
    by (simp only: batch_after_execute_model)
  have len: "length (batch_after (execute_model ws (Some batch))) = length batch"
    by (simp only: eq) simp
  have pt: "\<forall>i < length batch.
         batch_after (execute_model ws (Some batch)) ! i =
           (if i \<le> length (takeWhile (\<lambda>s. \<not> resolves_to_stepping ws s) batch)
               \<and> unknown_assignment ws (batch ! i)
            then (batch ! i)\<lparr>spec_decode_params := Some (SpecDecodeParams ngram)\<rparr>
            else batch ! i)"
  proof (intro allI impI)
    fix i assume i: "i < length batch"
    show "batch_after (execute_model ws (Some batch)) ! i =
           (if i \<le> length (takeWhile (\<lambda>s. \<not> resolves_to_stepping ws s) batch)
               \<and> unknown_assignment ws (batch ! i)
            then (batch ! i)\<lparr>spec_decode_params := Some (SpecDecodeParams ngram)\<rparr>
            else batch ! i)"
      by (simp only: eq coerced_prefix_nth [OF i]) (simp add: coerced_def less_Suc_eq_le)
  qed
  have g: "batch_after (get_spec_proposals ws batch bonus) = batch"
    by (simp add: get_spec_proposals_def split: sum.splits option.splits)
  have c: "batch_after (get_combined_spec_proposals ws batch bonus) = batch"
    by (simp add: get_combined_spec_proposals_def split: prod.splits)
  from len pt g c show ?thesis by blast
qed


theorem coercion_scope_witness:
  "length (batch_after (execute_model
       [(ngram, stub_worker OtherProposerWorker 0), (''draft'', stub_worker MultiStepWorker 1)]
       (Some [seq_with ''r0'' ''bogus'', seq_with ''r1'' ''draft'', seq_with ''r2'' ''bogus'']))) = 3
   \<and> batch_after (execute_model
       [(ngram, stub_worker OtherProposerWorker 0), (''draft'', stub_worker MultiStepWorker 1)]
       (Some [seq_with ''r0'' ''bogus'', seq_with ''r1'' ''draft'', seq_with ''r2'' ''bogus'']))
       ! 0 = seq_with ''r0'' ngram
   \<and> batch_after (execute_model
       [(ngram, stub_worker OtherProposerWorker 0), (''draft'', stub_worker MultiStepWorker 1)]
       (Some [seq_with ''r0'' ''bogus'', seq_with ''r1'' ''draft'', seq_with ''r2'' ''bogus'']))
       ! 1 = seq_with ''r1'' ''draft''
   \<and> batch_after (execute_model
       [(ngram, stub_worker OtherProposerWorker 0), (''draft'', stub_worker MultiStepWorker 1)]
       (Some [seq_with ''r0'' ''bogus'', seq_with ''r1'' ''draft'', seq_with ''r2'' ''bogus'']))
       ! 2 = seq_with ''r2'' ''bogus''
   \<and> batch_after (get_spec_proposals
       [(ngram, stub_worker OtherProposerWorker 0), (''draft'', stub_worker MultiStepWorker 1)]
       [seq_with ''r0'' ''bogus'', seq_with ''r1'' ''draft'', seq_with ''r2'' ''bogus''] {})
       = [seq_with ''r0'' ''bogus'', seq_with ''r1'' ''draft'', seq_with ''r2'' ''bogus'']
   \<and> batch_after (get_combined_spec_proposals
       [(ngram, stub_worker OtherProposerWorker 0), (''draft'', stub_worker MultiStepWorker 1)]
       [seq_with ''r0'' ''bogus'', seq_with ''r1'' ''draft'', seq_with ''r2'' ''bogus''] {})
       = [seq_with ''r0'' ''bogus'', seq_with ''r1'' ''draft'', seq_with ''r2'' ''bogus'']"
proof -
  let ?ws = "[(ngram, stub_worker OtherProposerWorker 0),
              (''draft'', stub_worker MultiStepWorker 1)]"
  let ?b = "[seq_with ''r0'' ''bogus'', seq_with ''r1'' ''draft'', seq_with ''r2'' ''bogus'']"
  have reg: "ngram \<in> set (valid_proposers ?ws)" by (simp add: valid_proposers_def)
  have st: "\<not> resolves_to_stepping ?ws (seq_with ''r0'' ''bogus'')"
    "resolves_to_stepping ?ws (seq_with ''r1'' ''draft'')"
    by (simp_all add: resolves_to_stepping_def resolved_name_def resolve_def
        valid_proposers_def seq_with_def stub_worker_def ngram_def)
  have k: "length (takeWhile (\<lambda>s. \<not> resolves_to_stepping ?ws s) ?b) = 1"
    using st by simp
  have un: "unknown_assignment ?ws (seq_with ''r0'' ''bogus'')"
    "\<not> unknown_assignment ?ws (seq_with ''r1'' ''draft'')"
    by (simp_all add: unknown_assignment_def valid_proposers_def seq_with_def ngram_def)
  have up: "(seq_with ''r0'' ''bogus'')\<lparr>spec_decode_params := Some (SpecDecodeParams ngram)\<rparr>
      = seq_with ''r0'' ngram"
    by (simp add: seq_with_def)
  from coercion_scope [OF reg, of ?b "{}"]
  have len: "length (batch_after (execute_model ?ws (Some ?b))) = length ?b"
    and pt: "\<And>i. i < length ?b \<Longrightarrow> batch_after (execute_model ?ws (Some ?b)) ! i =
           (if i \<le> length (takeWhile (\<lambda>s. \<not> resolves_to_stepping ?ws s) ?b)
               \<and> unknown_assignment ?ws (?b ! i)
            then (?b ! i)\<lparr>spec_decode_params := Some (SpecDecodeParams ngram)\<rparr>
            else ?b ! i)"
    and g: "batch_after (get_spec_proposals ?ws ?b {}) = ?b"
    and c: "batch_after (get_combined_spec_proposals ?ws ?b {}) = ?b"
    by blast+
  have p0: "batch_after (execute_model ?ws (Some ?b)) ! 0 = seq_with ''r0'' ngram"
    using pt [of 0] un up by (simp only: k) simp
  have p1: "batch_after (execute_model ?ws (Some ?b)) ! 1 = seq_with ''r1'' ''draft''"
    using pt [of 1] un by (simp only: k) simp
  have p2: "batch_after (execute_model ?ws (Some ?b)) ! 2 = seq_with ''r2'' ''bogus''"
    using pt [of 2] by (simp only: k) simp
  from len p0 p1 p2 g c show ?thesis by simp
qed

text \<open>
  The sentence as the specification has it, that every operation scanning the assignments
  rewrites every unknown name, fails on the batch \<open>[draft, bogus]\<close>: each of the three
  operations returns normally and the second sequence still names \<open>bogus\<close>.
\<close>

theorem coercion_everywhere_counterexample:
  "''bogus'' \<notin> set (valid_proposers
       [(ngram, stub_worker OtherProposerWorker 0), (''draft'', stub_worker MultiStepWorker 1)])
   \<and> result (execute_model
       [(ngram, stub_worker OtherProposerWorker 0), (''draft'', stub_worker MultiStepWorker 1)]
       (Some [seq_with ''r0'' ''draft'', seq_with ''r1'' ''bogus''])) = Inr [SamplerOutput [1]]
   \<and> spec_decode_params (batch_after (execute_model
       [(ngram, stub_worker OtherProposerWorker 0), (''draft'', stub_worker MultiStepWorker 1)]
       (Some [seq_with ''r0'' ''draft'', seq_with ''r1'' ''bogus''])) ! 1)
       = Some (SpecDecodeParams ''bogus'')
   \<and> result (get_spec_proposals
       [(ngram, stub_worker OtherProposerWorker 0), (''draft'', stub_worker MultiStepWorker 1)]
       [seq_with ''r0'' ''draft'', seq_with ''r1'' ''bogus''] {})
       = Inr \<lparr>proposal_token_ids = [[1], [1]], proposal_probs = [[[1]], [[1]]],
              proposal_lens = [1, 1]\<rparr>
   \<and> spec_decode_params (batch_after (get_spec_proposals
       [(ngram, stub_worker OtherProposerWorker 0), (''draft'', stub_worker MultiStepWorker 1)]
       [seq_with ''r0'' ''draft'', seq_with ''r1'' ''bogus''] {}) ! 1)
       = Some (SpecDecodeParams ''bogus'')
   \<and> result (get_combined_spec_proposals
       [(ngram, stub_worker OtherProposerWorker 0), (''draft'', stub_worker MultiStepWorker 1)]
       [seq_with ''r0'' ''draft'', seq_with ''r1'' ''bogus''] {})
       = Inr \<lparr>proposal_token_ids = [[1], [0]], proposal_probs = [[[1]], [[1]]],
              proposal_lens = [1, 1]\<rparr>
   \<and> spec_decode_params (batch_after (get_combined_spec_proposals
       [(ngram, stub_worker OtherProposerWorker 0), (''draft'', stub_worker MultiStepWorker 1)]
       [seq_with ''r0'' ''draft'', seq_with ''r1'' ''bogus''] {}) ! 1)
       = Some (SpecDecodeParams ''bogus'')"
  by (simp add: valid_proposers_def ngram_def execute_model_def get_spec_proposals_def
      get_combined_spec_proposals_def get_proposer_for_this_step_def seq_with_def
      stub_worker_def truthy_def set_proposer_def stack_merged_def torch_stack_def
      enumerate_eq_zip Let_def)

section \<open>The partitioned proposal operation\<close>

lemma group_step_keys:
  "map fst (AList.map_entry k f (if k \<notin> set (map fst d) then AList.update k v d else d)) =
     (if k \<in> set (map fst d) then map fst d else map fst d @ [k])"
  by (simp add: update_keys)

lemma group_step_entries:
  "entries_of (AList.map_entry k (\<lambda>l. l @ [v])
       (if k \<notin> set (map fst d) then AList.update k [] d else d)) k' =
     (if k' = k then entries_of d k @ [v] else entries_of d k')"
proof (cases "k \<in> set (map fst d)")
  case True
  then have "map_of d k \<noteq> None" by (simp add: map_of_eq_None_iff)
  with True show ?thesis
    by (auto simp: entries_of_def map_of_map_entry split: option.splits)
next
  case False
  then have "map_of d k = None" by (simp add: map_of_eq_None_iff)
  with False show ?thesis
    by (auto simp: entries_of_def map_of_map_entry update_conv' split: option.splits)
qed


lemma partition_scan_inv:
  assumes "map fst pr = map fst oi"
  shows "map fst (fst (partition_scan (valid_proposers ws) zs pr oi)) =
           map fst (snd (partition_scan (valid_proposers ws) zs pr oi))
    \<and> (distinct (map fst oi) \<longrightarrow>
         distinct (map fst (snd (partition_scan (valid_proposers ws) zs pr oi))))
    \<and> (\<forall>name. entries_of (snd (partition_scan (valid_proposers ws) zs pr oi)) name =
         entries_of oi name
           @ map fst (filter (\<lambda>z. resolved_name ws (snd z) = Some name) zs))
    \<and> (\<forall>name. entries_of (fst (partition_scan (valid_proposers ws) zs pr oi)) name =
         entries_of pr name
           @ map snd (filter (\<lambda>z. resolved_name ws (snd z) = Some name) zs))
    \<and> (\<forall>name \<in> set (map fst (snd (partition_scan (valid_proposers ws) zs pr oi))).
         name \<in> set (map fst oi)
         \<or> filter (\<lambda>z. resolved_name ws (snd z) = Some name) zs \<noteq> [])"
  using assms
proof (induction zs arbitrary: pr oi)
  case Nil
  then show ?case by simp
next
  case (Cons z zs)
  obtain idx seq where z: "z = (idx, seq)" by (cases z)
  show ?case
  proof (cases "spec_decode_params seq")
    case None
    then have rn: "resolved_name ws seq = None" by (simp add: resolved_name_def)
    from Cons.IH [OF Cons.prems] show ?thesis using None rn z by simp
  next
    case (Some sd)
    let ?p = "resolve ws (get_proposer sd)"
    have rn: "resolved_name ws (snd z) = Some ?p"
      using Some z by (simp add: resolved_name_def)
    let ?pr = "AList.map_entry ?p (\<lambda>l. l @ [seq])
        (if ?p \<notin> set (map fst pr) then AList.update ?p [] pr else pr)"
    let ?oi = "AList.map_entry ?p (\<lambda>l. l @ [idx])
        (if ?p \<notin> set (map fst oi) then AList.update ?p [] oi else oi)"
    have step: "partition_scan (valid_proposers ws) (z # zs) pr oi =
        partition_scan (valid_proposers ws) zs ?pr ?oi"
      using Some z Cons.prems by (simp add: resolve_def Let_def)
    have keys: "map fst ?pr = map fst ?oi"
      using Cons.prems by (simp add: update_keys)
    have koi: "map fst ?oi = (if ?p \<in> set (map fst oi) then map fst oi else map fst oi @ [?p])"
      by (rule group_step_keys)
    have eoi: "\<And>name. entries_of ?oi name =
        (if name = ?p then entries_of oi ?p @ [idx] else entries_of oi name)"
      by (rule group_step_entries)
    have epr: "\<And>name. entries_of ?pr name =
        (if name = ?p then entries_of pr ?p @ [seq] else entries_of pr name)"
      by (rule group_step_entries)
    note ih = Cons.IH [OF keys]
    have c1: "map fst (fst (partition_scan (valid_proposers ws) (z # zs) pr oi)) =
           map fst (snd (partition_scan (valid_proposers ws) (z # zs) pr oi))"
      using ih by (simp only: step)
    have c2: "distinct (map fst oi) \<longrightarrow>
         distinct (map fst (snd (partition_scan (valid_proposers ws) (z # zs) pr oi)))"
    proof
      assume "distinct (map fst oi)"
      then have "distinct (map fst ?oi)" by (simp only: koi) simp
      with ih show "distinct (map fst (snd (partition_scan (valid_proposers ws) (z # zs) pr oi)))"
        by (simp only: step)
    qed
    have c3: "\<forall>name. entries_of (snd (partition_scan (valid_proposers ws) (z # zs) pr oi)) name =
         entries_of oi name
           @ map fst (filter (\<lambda>z. resolved_name ws (snd z) = Some name) (z # zs))"
    proof
      fix name
      have "entries_of (snd (partition_scan (valid_proposers ws) zs ?pr ?oi)) name =
          entries_of ?oi name @ map fst (filter (\<lambda>z. resolved_name ws (snd z) = Some name) zs)"
        using ih by blast
      moreover have "map fst (filter (\<lambda>z. resolved_name ws (snd z) = Some name) (z # zs)) =
          (if name = ?p then idx # map fst (filter (\<lambda>z. resolved_name ws (snd z) = Some name) zs)
           else map fst (filter (\<lambda>z. resolved_name ws (snd z) = Some name) zs))"
        using rn z by auto
      ultimately show "entries_of (snd (partition_scan (valid_proposers ws) (z # zs) pr oi)) name =
         entries_of oi name
           @ map fst (filter (\<lambda>z. resolved_name ws (snd z) = Some name) (z # zs))"
        by (simp only: step eoi) simp
    qed
    have c4: "\<forall>name. entries_of (fst (partition_scan (valid_proposers ws) (z # zs) pr oi)) name =
         entries_of pr name
           @ map snd (filter (\<lambda>z. resolved_name ws (snd z) = Some name) (z # zs))"
    proof
      fix name
      have "entries_of (fst (partition_scan (valid_proposers ws) zs ?pr ?oi)) name =
          entries_of ?pr name @ map snd (filter (\<lambda>z. resolved_name ws (snd z) = Some name) zs)"
        using ih by blast
      moreover have "map snd (filter (\<lambda>z. resolved_name ws (snd z) = Some name) (z # zs)) =
          (if name = ?p then seq # map snd (filter (\<lambda>z. resolved_name ws (snd z) = Some name) zs)
           else map snd (filter (\<lambda>z. resolved_name ws (snd z) = Some name) zs))"
        using rn z by auto
      ultimately show "entries_of (fst (partition_scan (valid_proposers ws) (z # zs) pr oi)) name =
         entries_of pr name
           @ map snd (filter (\<lambda>z. resolved_name ws (snd z) = Some name) (z # zs))"
        by (simp only: step epr) simp
    qed
    have c5: "\<forall>name \<in> set (map fst (snd (partition_scan (valid_proposers ws) (z # zs) pr oi))).
         name \<in> set (map fst oi)
         \<or> filter (\<lambda>z. resolved_name ws (snd z) = Some name) (z # zs) \<noteq> []"
    proof
      fix name
      assume "name \<in> set (map fst (snd (partition_scan (valid_proposers ws) (z # zs) pr oi)))"
      then have "name \<in> set (map fst (snd (partition_scan (valid_proposers ws) zs ?pr ?oi)))"
        by (simp only: step)
      with ih have "name \<in> set (map fst ?oi)
          \<or> filter (\<lambda>z. resolved_name ws (snd z) = Some name) zs \<noteq> []" by blast
      then show "name \<in> set (map fst oi)
         \<or> filter (\<lambda>z. resolved_name ws (snd z) = Some name) (z # zs) \<noteq> []"
        using rn by (simp only: koi) (auto split: if_splits)
    qed
    from c1 c2 c3 c4 c5 show ?thesis by blast
  qed
qed


lemma enumerate_filter_snd:
  "map snd (filter (\<lambda>z. P (snd z)) (enumerate n xs)) = filter P xs"
  by (induction xs arbitrary: n) auto

lemma enumerate_filter_fst:
  "map fst (filter (\<lambda>z. P (snd z)) (enumerate 0 xs)) =
     filter (\<lambda>i. P (xs ! i)) [0..<length xs]"
proof (induction xs rule: rev_induct)
  case Nil
  show ?case by simp
next
  case (snoc x xs)
  have "filter (\<lambda>i. P ((xs @ [x]) ! i)) [0..<length xs] =
      filter (\<lambda>i. P (xs ! i)) [0..<length xs]"
    by (rule filter_cong) (auto simp: nth_append)
  with snoc show ?case by (simp add: enumerate_append_eq)
qed

lemma filter_nth_position:
  assumes "i < length xs" and "P (xs ! i)"
  shows "length (filter P (take i xs)) < length (filter P xs)
     \<and> filter P xs ! length (filter P (take i xs)) = xs ! i"
proof -
  have "xs = take i xs @ xs ! i # drop (Suc i) xs"
    using assms(1) by (rule id_take_nth_drop)
  then have "filter P xs = filter P (take i xs) @ xs ! i # filter P (drop (Suc i) xs)"
    using assms(2) by (metis filter.simps(2) filter_append)
  then show ?thesis by (simp add: nth_append)
qed

lemma filter_upt_position:
  assumes "i < length xs"
  shows "length (filter (\<lambda>k. P (xs ! k)) [0..<i]) = length (filter P (take i xs))"
proof -
  have "take i xs = map (\<lambda>k. xs ! k) [0..<i]"
    using assms by (intro nth_equalityI) auto
  then show ?thesis by (simp add: filter_map comp_def)
qed

lemma index_list_position:
  assumes i: "i < length xs" and p: "P (xs ! i)"
  shows "length (filter P (take i xs)) < length (filter (\<lambda>k. P (xs ! k)) [0..<length xs])
     \<and> filter (\<lambda>k. P (xs ! k)) [0..<length xs] ! length (filter P (take i xs)) = i"
proof -
  let ?ns = "[0..<length xs]"
  have i': "i < length ?ns" using i by simp
  have p': "P (xs ! (?ns ! i))" using i p by simp
  from filter_nth_position [of i ?ns "\<lambda>k. P (xs ! k)", OF i' p']
  have "length (filter (\<lambda>k. P (xs ! k)) (take i ?ns)) < length (filter (\<lambda>k. P (xs ! k)) ?ns)
     \<and> filter (\<lambda>k. P (xs ! k)) ?ns ! length (filter (\<lambda>k. P (xs ! k)) (take i ?ns)) = ?ns ! i" .
  moreover have "take i ?ns = [0..<i]" using i by (simp add: take_upt)
  ultimately show ?thesis using filter_upt_position [OF i, of P] i by simp
qed

lemma entries_of_member:
  "distinct (map fst d) \<Longrightarrow> (k, l) \<in> set d \<Longrightarrow> entries_of d k = l"
  by (simp add: entries_of_def)

lemma entries_of_nonempty:
  "entries_of d k \<noteq> [] \<Longrightarrow> (k, entries_of d k) \<in> set d"
  by (auto simp: entries_of_def split: option.splits dest: map_of_SomeD)

lemma partition_groups:
  assumes "partition_scan (valid_proposers ws) (enumerate 0 batch) [] [] = (pr, oi)"
  shows "map fst pr = map fst oi" and "distinct (map fst oi)"
    and "\<And>name idxs. (name, idxs) \<in> set oi \<Longrightarrow>
           idxs = filter (\<lambda>i. resolved_name ws (batch ! i) = Some name) [0..<length batch]"
    and "\<And>name sq. (name, sq) \<in> set pr \<Longrightarrow> sq = group_members ws name batch \<and> sq \<noteq> []"
    and "\<And>name i. i < length batch \<Longrightarrow> resolved_name ws (batch ! i) = Some name \<Longrightarrow>
           (name, filter (\<lambda>i. resolved_name ws (batch ! i) = Some name) [0..<length batch])
             \<in> set oi
           \<and> (name, group_members ws name batch) \<in> set pr"
proof -
  note inv = partition_scan_inv [of "[]" "[]" ws "enumerate 0 batch", simplified assms, simplified]
  from inv show k: "map fst pr = map fst oi" by blast
  from inv show d: "distinct (map fst oi)" by blast
  from inv have eo: "\<And>name. entries_of oi name =
      map fst (filter (\<lambda>z. resolved_name ws (snd z) = Some name) (enumerate 0 batch))"
    by (simp add: entries_of_def)
  from inv have ep: "\<And>name. entries_of pr name =
      map snd (filter (\<lambda>z. resolved_name ws (snd z) = Some name) (enumerate 0 batch))"
    by (simp add: entries_of_def)
  have ef: "\<And>name. map fst (filter (\<lambda>z. resolved_name ws (snd z) = Some name)
        (enumerate 0 batch)) =
      filter (\<lambda>i. resolved_name ws (batch ! i) = Some name) [0..<length batch]"
    by (rule enumerate_filter_fst [of "\<lambda>s. resolved_name ws s = Some name" for name])
  have es: "\<And>name. map snd (filter (\<lambda>z. resolved_name ws (snd z) = Some name)
        (enumerate 0 batch)) = group_members ws name batch"
    unfolding group_members_def
    by (rule enumerate_filter_snd [of "\<lambda>s. resolved_name ws s = Some name" for name])
  have eo': "\<And>name. entries_of oi name =
      filter (\<lambda>i. resolved_name ws (batch ! i) = Some name) [0..<length batch]"
    by (simp only: eo ef)
  have ep': "\<And>name. entries_of pr name = group_members ws name batch"
    by (simp only: ep es)
  from inv have ne: "\<And>name. name \<in> set (map fst oi) \<Longrightarrow>
      filter (\<lambda>z. resolved_name ws (snd z) = Some name) (enumerate 0 batch) \<noteq> []"
    by auto
  have dp: "distinct (map fst pr)" using k d by simp
  show "\<And>name idxs. (name, idxs) \<in> set oi \<Longrightarrow>
           idxs = filter (\<lambda>i. resolved_name ws (batch ! i) = Some name) [0..<length batch]"
    using entries_of_member [OF d] eo' by metis
  show "\<And>name sq. (name, sq) \<in> set pr \<Longrightarrow> sq = group_members ws name batch \<and> sq \<noteq> []"
  proof -
    fix name sq assume m: "(name, sq) \<in> set pr"
    then have sq: "sq = group_members ws name batch"
      using entries_of_member [OF dp m] ep' by simp
    from m have "name \<in> set (map fst oi)" using k by (metis fst_conv image_eqI set_map)
    from ne [OF this] have "map snd (filter (\<lambda>z. resolved_name ws (snd z) = Some name)
        (enumerate 0 batch)) \<noteq> []" by simp
    then have "group_members ws name batch \<noteq> []"
      unfolding es .
    with sq show "sq = group_members ws name batch \<and> sq \<noteq> []" by simp
  qed
  show "\<And>name i. i < length batch \<Longrightarrow> resolved_name ws (batch ! i) = Some name \<Longrightarrow>
           (name, filter (\<lambda>i. resolved_name ws (batch ! i) = Some name) [0..<length batch])
             \<in> set oi
           \<and> (name, group_members ws name batch) \<in> set pr"
  proof -
    fix name i assume i: "i < length batch" and r: "resolved_name ws (batch ! i) = Some name"
    have "i \<in> set (filter (\<lambda>i. resolved_name ws (batch ! i) = Some name) [0..<length batch])"
      using i r by simp
    then have "filter (\<lambda>i. resolved_name ws (batch ! i) = Some name) [0..<length batch] \<noteq> []"
      by (metis empty_iff empty_set)
    then have "entries_of oi name \<noteq> []" unfolding eo' .
    from entries_of_nonempty [OF this] have a: "(name,
        filter (\<lambda>i. resolved_name ws (batch ! i) = Some name) [0..<length batch]) \<in> set oi"
      by (simp only: eo')
    have "batch ! i \<in> set (group_members ws name batch)"
      using i r by (simp add: group_members_def)
    then have "group_members ws name batch \<noteq> []" by (metis empty_iff empty_set)
    then have "entries_of pr name \<noteq> []" unfolding ep' .
    from entries_of_nonempty [OF this] have "(name, group_members ws name batch) \<in> set pr"
      by (simp only: ep')
    with a show "(name, filter (\<lambda>i. resolved_name ws (batch ! i) = Some name)
        [0..<length batch]) \<in> set oi \<and> (name, group_members ws name batch) \<in> set pr"
      by simp
  qed
qed


lemma submit_all_names:
  "fst ` set (snd (submit_all ws pr bonus)) \<subseteq> fst ` set pr"
proof (induction pr)
  case Nil
  show ?case by simp
next
  case (Cons p pr)
  obtain name sq where p: "p = (name, sq)" by (cases p)
  show ?case
  proof (cases "sq = []")
    case True
    with Cons p show ?thesis by auto
  next
    case False
    show ?thesis
    proof (cases "map_of ws name")
      case None
      with False p show ?thesis by simp
    next
      case (Some w)
      with False p Cons show ?thesis by auto
    qed
  qed
qed

lemma submit_all_distinct:
  "distinct (map fst pr) \<Longrightarrow> distinct (map fst (snd (submit_all ws pr bonus)))"
proof (induction pr)
  case Nil
  show ?case by simp
next
  case (Cons p pr)
  obtain name sq where p: "p = (name, sq)" by (cases p)
  from Cons.prems p have n: "name \<notin> fst ` set pr" and d: "distinct (map fst pr)" by auto
  from n submit_all_names [of ws pr bonus]
  have "name \<notin> fst ` set (snd (submit_all ws pr bonus))" by blast
  with Cons.IH [OF d] p show ?case
    by (cases "sq = []"; cases "map_of ws name") (auto simp: image_iff)
qed

lemma submit_all_ok:
  "submit_all ws pr bonus = (None, fs) \<Longrightarrow> (name, sq) \<in> set pr \<Longrightarrow> sq \<noteq> [] \<Longrightarrow>
   \<exists>w. map_of ws name = Some w \<and> (name, sq, get_spec_proposals_w w sq bonus) \<in> set fs"
proof (induction pr arbitrary: fs)
  case Nil
  then show ?case by simp
next
  case (Cons p pr)
  obtain n0 sq0 where p: "p = (n0, sq0)" by (cases p)
  show ?case
  proof (cases "sq0 = []")
    case True
    with Cons.prems p have "submit_all ws pr bonus = (None, fs)" "(name, sq) \<in> set pr"
      by auto
    from Cons.IH [OF this Cons.prems(3)] show ?thesis .
  next
    case False
    with Cons.prems(1) p obtain w0 where w0: "map_of ws n0 = Some w0"
      by (cases "map_of ws n0") auto
    obtain e fs' where r: "submit_all ws pr bonus = (e, fs')"
      by (cases "submit_all ws pr bonus")
    with Cons.prems(1) p False w0
    have e: "e = None" and fs: "fs = (n0, sq0, get_spec_proposals_w w0 sq0 bonus) # fs'"
      by auto
    show ?thesis
    proof (cases "(name, sq) = (n0, sq0)")
      case True
      with w0 fs show ?thesis by auto
    next
      case False
      with Cons.prems(2) p have "(name, sq) \<in> set pr" by auto
      from Cons.IH [OF r [unfolded e] this Cons.prems(3)] fs show ?thesis by auto
    qed
  qed
qed

lemma collect_results_other:
  "collect_results fs acc = Inr ap \<Longrightarrow> name \<notin> fst ` set fs \<Longrightarrow>
   map_of ap name = map_of acc name"
proof (induction fs arbitrary: acc)
  case Nil
  then show ?case by simp
next
  case (Cons f fs)
  obtain n0 sq0 fut0 where f: "f = (n0, sq0, fut0)" by (cases f)
  from Cons.prems(1) f obtain p0 where p0: "fut0 = Inr p0"
    and r: "collect_results fs (AList.update n0 p0 acc) = Inr ap"
    by (cases fut0) auto
  from Cons.prems(2) f have "name \<noteq> n0" "name \<notin> fst ` set fs" by auto
  with Cons.IH [OF r] show ?case by (simp add: update_conv')
qed

lemma collect_results_ok:
  "collect_results fs acc = Inr ap \<Longrightarrow> distinct (map fst fs) \<Longrightarrow>
   (name, sq, fut) \<in> set fs \<Longrightarrow> \<exists>proposals. fut = Inr proposals \<and> map_of ap name = Some proposals"
proof (induction fs arbitrary: acc)
  case Nil
  then show ?case by simp
next
  case (Cons f fs)
  obtain n0 sq0 fut0 where f: "f = (n0, sq0, fut0)" by (cases f)
  from Cons.prems(1) f obtain p0 where p0: "fut0 = Inr p0"
    and r: "collect_results fs (AList.update n0 p0 acc) = Inr ap"
    by (cases fut0) auto
  from Cons.prems(2) f have n: "n0 \<notin> fst ` set fs" and d: "distinct (map fst fs)" by auto
  show ?case
  proof (cases "(name, sq, fut) = f")
    case True
    with f have "name = n0" "fut = fut0" by auto
    with collect_results_other [OF r n] p0 show ?thesis by (simp add: update_conv')
  next
    case False
    with Cons.prems(3) have "(name, sq, fut) \<in> set fs" by auto
    from Cons.IH [OF r d this] show ?thesis .
  qed
qed

lemma scatter_other:
  "scatter proposals zs (mt, mp, ml) = Inr (mt', mp', ml') \<Longrightarrow>
   length mt' = length mt \<and> length mp' = length mp \<and> length ml' = length ml
   \<and> (\<forall>x. x \<notin> snd ` set zs \<longrightarrow> mt' ! x = mt ! x \<and> mp' ! x = mp ! x \<and> ml' ! x = ml ! x)"
proof (induction zs arbitrary: mt mp ml)
  case Nil
  then show ?case by simp
next
  case (Cons z zs)
  obtain i idx where z: "z = (i, idx)" by (cases z)
  from Cons.prems z
  have r: "scatter proposals zs
      (mt[idx := Some (proposal_token_ids proposals ! i)],
       mp[idx := Some (proposal_probs proposals ! i)],
       ml[idx := Some (proposal_lens proposals ! i)]) = Inr (mt', mp', ml')"
    by (simp split: if_splits)
  from Cons.IH [OF r] z show ?case by auto
qed

lemma scatter_written:
  "scatter proposals zs (mt, mp, ml) = Inr (mt', mp', ml') \<Longrightarrow> distinct (map snd zs) \<Longrightarrow>
   (i, idx) \<in> set zs \<Longrightarrow>
   i < length (proposal_token_ids proposals) \<and> i < length (proposal_probs proposals)
   \<and> i < length (proposal_lens proposals)
   \<and> mt' ! idx = Some (proposal_token_ids proposals ! i)
   \<and> mp' ! idx = Some (proposal_probs proposals ! i)
   \<and> ml' ! idx = Some (proposal_lens proposals ! i)"
proof (induction zs arbitrary: mt mp ml)
  case Nil
  then show ?case by simp
next
  case (Cons z zs)
  obtain i0 idx0 where z: "z = (i0, idx0)" by (cases z)
  from Cons.prems(1) z
  have ok: "i0 < length (proposal_token_ids proposals)" "idx0 < length mt"
      "i0 < length (proposal_probs proposals)" "idx0 < length mp"
      "i0 < length (proposal_lens proposals)" "idx0 < length ml"
    and r: "scatter proposals zs
      (mt[idx0 := Some (proposal_token_ids proposals ! i0)],
       mp[idx0 := Some (proposal_probs proposals ! i0)],
       ml[idx0 := Some (proposal_lens proposals ! i0)]) = Inr (mt', mp', ml')"
    by (simp_all split: if_splits)
  from Cons.prems(2) z have n: "idx0 \<notin> snd ` set zs" and d: "distinct (map snd zs)" by auto
  show ?case
  proof (cases "(i, idx) = z")
    case True
    with z have e: "i = i0" "idx = idx0" by auto
    from scatter_other [OF r] n ok show ?thesis unfolding e by simp
  next
    case False
    with Cons.prems(3) have "(i, idx) \<in> set zs" by auto
    from Cons.IH [OF r d this] show ?thesis .
  qed
qed

lemma torch_stack_ok:
  "torch_stack shape tensors = Inr out \<Longrightarrow> out = map the tensors \<and> None \<notin> set tensors"
  by (auto simp: torch_stack_def split: if_splits)

lemma stack_merged_ok:
  "stack_merged (mt, mp, ml) = Inr out \<Longrightarrow>
   proposal_token_ids out = map the mt \<and> None \<notin> set mt
   \<and> proposal_probs out = map the mp \<and> None \<notin> set mp
   \<and> proposal_lens out = map the ml \<and> None \<notin> set ml"
  by (auto simp: stack_merged_def split: sum.splits dest!: torch_stack_ok)


lemma merge_all_Cons:
  "merge_all ((name, idxs) # rest) ap m = Inr m' \<Longrightarrow>
   \<exists>proposals m1. map_of ap name = Some proposals
     \<and> (if idxs = [] then m1 = m else scatter proposals (enumerate 0 idxs) m = Inr m1)
     \<and> merge_all rest ap m1 = Inr m'"
  by (auto split: option.splits sum.splits if_splits)

lemma merge_all_other:
  "merge_all oi ap (mt, mp, ml) = Inr (mt', mp', ml') \<Longrightarrow>
   length mt' = length mt \<and> length mp' = length mp \<and> length ml' = length ml
   \<and> (\<forall>x. (\<forall>p \<in> set oi. x \<notin> set (snd p)) \<longrightarrow>
         mt' ! x = mt ! x \<and> mp' ! x = mp ! x \<and> ml' ! x = ml ! x)"
proof (induction oi arbitrary: mt mp ml)
  case Nil
  then show ?case by simp
next
  case (Cons p oi)
  obtain name idxs where p: "p = (name, idxs)" by (cases p)
  from merge_all_Cons [OF Cons.prems [unfolded p]] obtain proposals m1 where
    s: "if idxs = [] then m1 = (mt, mp, ml)
        else scatter proposals (enumerate 0 idxs) (mt, mp, ml) = Inr m1"
    and r: "merge_all oi ap m1 = Inr (mt', mp', ml')" by blast
  obtain mt1 mp1 ml1 where m1: "m1 = (mt1, mp1, ml1)" by (cases m1)
  have first: "length mt1 = length mt \<and> length mp1 = length mp \<and> length ml1 = length ml
      \<and> (\<forall>x. x \<notin> set idxs \<longrightarrow> mt1 ! x = mt ! x \<and> mp1 ! x = mp ! x \<and> ml1 ! x = ml ! x)"
  proof (cases "idxs = []")
    case True
    with s m1 show ?thesis by simp
  next
    case False
    with s m1 have "scatter proposals (enumerate 0 idxs) (mt, mp, ml) = Inr (mt1, mp1, ml1)"
      by simp
    moreover have "snd ` set (enumerate 0 idxs) = set idxs"
      by (metis map_snd_enumerate set_map)
    ultimately show ?thesis using scatter_other [of proposals "enumerate 0 idxs" mt mp ml mt1 mp1 ml1]
      by simp
  qed
  from Cons.IH [OF r [unfolded m1]] first p show ?case by simp
qed

lemma merge_all_written:
  assumes "merge_all oi ap (mt, mp, ml) = Inr (mt', mp', ml')"
    and "distinct (map fst oi)"
    and "\<forall>p \<in> set oi. distinct (snd p) \<and> (\<forall>x \<in> set (snd p). owner x = fst p)"
    and "(name, idxs) \<in> set oi" and "j < length idxs"
  shows "\<exists>proposals. map_of ap name = Some proposals
     \<and> j < length (proposal_token_ids proposals) \<and> j < length (proposal_probs proposals)
     \<and> j < length (proposal_lens proposals)
     \<and> mt' ! (idxs ! j) = Some (proposal_token_ids proposals ! j)
     \<and> mp' ! (idxs ! j) = Some (proposal_probs proposals ! j)
     \<and> ml' ! (idxs ! j) = Some (proposal_lens proposals ! j)"
  using assms
proof (induction oi arbitrary: mt mp ml)
  case Nil
  then show ?case by simp
next
  case (Cons p oi)
  obtain n0 idxs0 where p: "p = (n0, idxs0)" by (cases p)
  from merge_all_Cons [OF Cons.prems(1) [unfolded p]] obtain proposals m1 where
    look: "map_of ap n0 = Some proposals"
    and s: "if idxs0 = [] then m1 = (mt, mp, ml)
        else scatter proposals (enumerate 0 idxs0) (mt, mp, ml) = Inr m1"
    and r: "merge_all oi ap m1 = Inr (mt', mp', ml')" by blast
  obtain mt1 mp1 ml1 where m1: "m1 = (mt1, mp1, ml1)" by (cases m1)
  from Cons.prems(2) p have n0: "n0 \<notin> fst ` set oi" and d: "distinct (map fst oi)" by auto
  from Cons.prems(3) have own: "\<forall>p \<in> set oi. distinct (snd p) \<and> (\<forall>x \<in> set (snd p). owner x = fst p)"
    by simp
  show ?case
  proof (cases "(name, idxs) = p")
    case True
    with p have e: "name = n0" "idxs = idxs0" by auto
    from Cons.prems(5) e have ne: "idxs0 \<noteq> []" by auto
    with s m1 have sc: "scatter proposals (enumerate 0 idxs0) (mt, mp, ml) = Inr (mt1, mp1, ml1)"
      by simp
    from Cons.prems(3) p have di: "distinct idxs0" and ow: "\<forall>x \<in> set idxs0. owner x = n0"
      by auto
    have mem: "(j, idxs0 ! j) \<in> set (enumerate 0 idxs0)"
      using Cons.prems(5) e by (simp add: in_set_enumerate_eq)
    have dz: "distinct (map snd (enumerate 0 idxs0))" using di by simp
    from scatter_written [OF sc dz mem]
    have w: "j < length (proposal_token_ids proposals) \<and> j < length (proposal_probs proposals)
       \<and> j < length (proposal_lens proposals)
       \<and> mt1 ! (idxs0 ! j) = Some (proposal_token_ids proposals ! j)
       \<and> mp1 ! (idxs0 ! j) = Some (proposal_probs proposals ! j)
       \<and> ml1 ! (idxs0 ! j) = Some (proposal_lens proposals ! j)" .
    have "idxs0 ! j \<in> set idxs0" using Cons.prems(5) e by simp
    with ow have oj: "owner (idxs0 ! j) = n0" by simp
    have free: "\<forall>q \<in> set oi. idxs0 ! j \<notin> set (snd q)"
    proof
      fix q assume q: "q \<in> set oi"
      show "idxs0 ! j \<notin> set (snd q)"
      proof
        assume "idxs0 ! j \<in> set (snd q)"
        with own q have "owner (idxs0 ! j) = fst q" by blast
        with oj have "n0 = fst q" by simp
        with q n0 show False by auto
      qed
    qed
    from merge_all_other [OF r [unfolded m1]] free
    have "mt' ! (idxs0 ! j) = mt1 ! (idxs0 ! j) \<and> mp' ! (idxs0 ! j) = mp1 ! (idxs0 ! j)
        \<and> ml' ! (idxs0 ! j) = ml1 ! (idxs0 ! j)" by blast
    with w look e show ?thesis by simp
  next
    case False
    with Cons.prems(4) have "(name, idxs) \<in> set oi" by auto
    from Cons.IH [OF r [unfolded m1] d own this Cons.prems(5)] show ?thesis .
  qed
qed




lemma submit_all_member:
  "(n, sq, fut) \<in> set (snd (submit_all ws pr bonus)) \<Longrightarrow>
   (n, sq) \<in> set pr \<and> (\<exists>w. map_of ws n = Some w \<and> fut = get_spec_proposals_w w sq bonus)"
proof (induction pr)
  case Nil
  then show ?case by simp
next
  case (Cons p pr)
  obtain name sq0 where p: "p = (name, sq0)" by (cases p)
  show ?case
  proof (cases "sq0 = []")
    case True
    with Cons p show ?thesis by auto
  next
    case False
    show ?thesis
    proof (cases "map_of ws name")
      case None
      with False p Cons.prems show ?thesis by simp
    next
      case (Some w)
      with False p Cons show ?thesis by auto
    qed
  qed
qed

lemma submit_all_total:
  "\<forall>p \<in> set pr. fst p \<in> fst ` set ws \<Longrightarrow> fst (submit_all ws pr bonus) = None"
proof (induction pr)
  case Nil
  show ?case by simp
next
  case (Cons p pr)
  obtain name sq0 where p: "p = (name, sq0)" by (cases p)
  from Cons.prems p have "name \<in> fst ` set ws" by simp
  then have "map_of ws name \<noteq> None" by (simp add: map_of_eq_None_iff)
  then obtain w where w: "map_of ws name = Some w" by auto
  from Cons have "fst (submit_all ws pr bonus) = None" by simp
  with w p show ?case by simp
qed

lemma collect_results_total:
  "\<forall>f \<in> set fs. \<exists>proposals. snd (snd f) = Inr proposals \<Longrightarrow>
   \<exists>ap. collect_results fs acc = Inr ap"
proof (induction fs arbitrary: acc)
  case Nil
  show ?case by simp
next
  case (Cons f fs)
  obtain n sq fut where f: "f = (n, sq, fut)" by (cases f)
  from Cons.prems f obtain proposals where "fut = Inr proposals" by auto
  with Cons f show ?case by simp
qed

lemma scatter_total:
  "\<forall>z \<in> set zs. fst z < length (proposal_token_ids proposals)
      \<and> fst z < length (proposal_probs proposals) \<and> fst z < length (proposal_lens proposals)
      \<and> snd z < length mt \<Longrightarrow>
   length mp = length mt \<Longrightarrow> length ml = length mt \<Longrightarrow>
   \<exists>m'. scatter proposals zs (mt, mp, ml) = Inr m'"
proof (induction zs arbitrary: mt mp ml)
  case Nil
  show ?case by simp
next
  case (Cons z zs)
  obtain i idx where z: "z = (i, idx)" by (cases z)
  let ?mt = "mt[idx := Some (proposal_token_ids proposals ! i)]"
  let ?mp = "mp[idx := Some (proposal_probs proposals ! i)]"
  let ?ml = "ml[idx := Some (proposal_lens proposals ! i)]"
  have "\<exists>m'. scatter proposals zs (?mt, ?mp, ?ml) = Inr m'"
    using Cons.prems by (intro Cons.IH) auto
  with Cons.prems z show ?case by auto
qed

lemma merge_all_total:
  "\<forall>p \<in> set oi. \<exists>proposals. map_of ap (fst p) = Some proposals
      \<and> length (snd p) \<le> length (proposal_token_ids proposals)
      \<and> length (snd p) \<le> length (proposal_probs proposals)
      \<and> length (snd p) \<le> length (proposal_lens proposals)
      \<and> (\<forall>x \<in> set (snd p). x < length mt) \<Longrightarrow>
   length mp = length mt \<Longrightarrow> length ml = length mt \<Longrightarrow>
   \<exists>m'. merge_all oi ap (mt, mp, ml) = Inr m'"
proof (induction oi arbitrary: mt mp ml)
  case Nil
  show ?case by simp
next
  case (Cons p oi)
  obtain name idxs where p: "p = (name, idxs)" by (cases p)
  from Cons.prems(1) p obtain proposals where
    look: "map_of ap name = Some proposals"
    and le: "length idxs \<le> length (proposal_token_ids proposals)"
      "length idxs \<le> length (proposal_probs proposals)"
      "length idxs \<le> length (proposal_lens proposals)"
    and rng: "\<forall>x \<in> set idxs. x < length mt" by auto
  have rest: "\<forall>p \<in> set oi. \<exists>proposals. map_of ap (fst p) = Some proposals
      \<and> length (snd p) \<le> length (proposal_token_ids proposals)
      \<and> length (snd p) \<le> length (proposal_probs proposals)
      \<and> length (snd p) \<le> length (proposal_lens proposals)
      \<and> (\<forall>x \<in> set (snd p). x < length mt)"
    using Cons.prems(1) by simp
  show ?case
  proof (cases "idxs = []")
    case True
    from Cons.IH [OF rest Cons.prems(2,3)] look True p show ?thesis by simp
  next
    case False
    have "\<forall>z \<in> set (enumerate 0 idxs). fst z < length (proposal_token_ids proposals)
      \<and> fst z < length (proposal_probs proposals) \<and> fst z < length (proposal_lens proposals)
      \<and> snd z < length mt"
      using le rng by (auto simp: in_set_enumerate_eq)
    from scatter_total [OF this Cons.prems(2,3)] obtain m1 where
      sc: "scatter proposals (enumerate 0 idxs) (mt, mp, ml) = Inr m1" by blast
    obtain mt1 mp1 ml1 where m1: "m1 = (mt1, mp1, ml1)" by (cases m1)
    from scatter_other [OF sc [unfolded m1]]
    have len: "length mt1 = length mt" "length mp1 = length mp" "length ml1 = length ml"
      by simp_all
    have rest1: "\<forall>p \<in> set oi. \<exists>proposals. map_of ap (fst p) = Some proposals
      \<and> length (snd p) \<le> length (proposal_token_ids proposals)
      \<and> length (snd p) \<le> length (proposal_probs proposals)
      \<and> length (snd p) \<le> length (proposal_lens proposals)
      \<and> (\<forall>x \<in> set (snd p). x < length mt1)"
      using rest len by simp
    have "\<exists>m'. merge_all oi ap (mt1, mp1, ml1) = Inr m'"
      using Cons.prems(2,3) len by (intro Cons.IH [OF rest1]) simp_all
    with look sc m1 False p show ?thesis by simp
  qed
qed

lemma torch_stack_total:
  "tensors \<noteq> [] \<Longrightarrow> \<forall>t \<in> set tensors. \<exists>v. t = Some v \<and> shape v = s \<Longrightarrow>
   torch_stack shape tensors = Inr (map the tensors)"
proof -
  assume ne: "tensors \<noteq> []" and all: "\<forall>t \<in> set tensors. \<exists>v. t = Some v \<and> shape v = s"
  have n: "None \<notin> set tensors" using all by auto
  have "hd tensors \<in> set tensors" using ne by simp
  with all have h: "shape (the (hd tensors)) = s" by auto
  have "list_all (\<lambda>t. shape t = shape (the (hd tensors))) (map the tensors)"
    unfolding h using all by (auto simp: list_all_iff)
  with n ne show ?thesis by (simp add: torch_stack_def)
qed

lemma combined_stages:
  assumes "result (get_combined_spec_proposals ws batch bonus) = Inr out"
  obtains pr oi fs ap mt mp ml where
    "partition_scan (valid_proposers ws) (enumerate 0 batch) [] [] = (pr, oi)"
    "submit_all ws pr bonus = (None, fs)"
    "collect_results fs [] = Inr ap"
    "merge_all oi ap (replicate (length batch) None, replicate (length batch) None,
        replicate (length batch) None) = Inr (mt, mp, ml)"
    "stack_merged (mt, mp, ml) = Inr out"
proof -
  obtain pr oi where ps: "partition_scan (valid_proposers ws) (enumerate 0 batch) [] [] = (pr, oi)"
    by (cases "partition_scan (valid_proposers ws) (enumerate 0 batch) [] []")
  obtain failed fs where sa: "submit_all ws pr bonus = (failed, fs)"
    by (cases "submit_all ws pr bonus")
  from assms ps sa have f: "failed = None"
    by (cases failed) (simp_all add: get_combined_spec_proposals_def)
  from assms ps sa f obtain ap where cr: "collect_results fs [] = Inr ap"
    by (cases "collect_results fs []") (simp_all add: get_combined_spec_proposals_def)
  let ?m0 = "(replicate (length batch) None, replicate (length batch) None,
        replicate (length batch) None)
      :: int list option list \<times> real list list option list \<times> int option list"
  from assms ps sa f cr obtain m where ma: "merge_all oi ap ?m0 = Inr m"
    by (cases "merge_all oi ap ?m0") (simp_all add: get_combined_spec_proposals_def Let_def)
  from assms ps sa f cr ma have st: "stack_merged m = Inr out"
    by (simp add: get_combined_spec_proposals_def Let_def)
  obtain mt mp ml where m: "m = (mt, mp, ml)" by (cases m)
  from that [OF ps sa [unfolded f] cr ma [unfolded m] st [unfolded m]] show ?thesis .
qed

lemma group_index_length:
  "length (filter (\<lambda>i. P (xs ! i)) [0..<length xs]) = length (filter P xs)"
proof -
  have "length (map fst (filter (\<lambda>z. P (snd z)) (enumerate 0 xs))) =
      length (map snd (filter (\<lambda>z. P (snd z)) (enumerate 0 xs)))" by simp
  then show ?thesis by (simp only: enumerate_filter_fst enumerate_filter_snd)
qed

lemma merged_rows:
  assumes carried: "\<forall>seq \<in> set batch. spec_decode_params seq \<noteq> None"
    and ps: "partition_scan (valid_proposers ws) (enumerate 0 batch) [] [] = (pr, oi)"
    and sa: "submit_all ws pr bonus = (None, fs)"
    and cr: "collect_results fs [] = Inr ap"
    and ma: "merge_all oi ap (replicate (length batch) None, replicate (length batch) None,
        replicate (length batch) None) = Inr (mt, mp, ml)"
    and i: "i < length batch"
  shows "\<exists>name w served.
           resolved_name ws (batch ! i) = Some name \<and> map_of ws name = Some w
           \<and> get_spec_proposals_w w (group_members ws name batch) bonus = Inr served
           \<and> position_in_group ws batch i < length (group_members ws name batch)
           \<and> group_members ws name batch ! position_in_group ws batch i = batch ! i
           \<and> position_in_group ws batch i < length (proposal_token_ids served)
           \<and> position_in_group ws batch i < length (proposal_probs served)
           \<and> position_in_group ws batch i < length (proposal_lens served)
           \<and> mt ! i = Some (proposal_token_ids served ! position_in_group ws batch i)
           \<and> mp ! i = Some (proposal_probs served ! position_in_group ws batch i)
           \<and> ml ! i = Some (proposal_lens served ! position_in_group ws batch i)"
proof -
  note pg = partition_groups [OF ps]
  have dfs: "distinct (map fst fs)"
    using submit_all_distinct [of pr ws bonus] pg(1) pg(2) sa by simp
  have own: "\<forall>p \<in> set oi. distinct (snd p)
      \<and> (\<forall>x \<in> set (snd p). the (resolved_name ws (batch ! x)) = fst p)"
  proof
    fix p assume p: "p \<in> set oi"
    obtain name idxs where pe: "p = (name, idxs)" by (cases p)
    from pg(3) [of name idxs] p pe
    have "idxs = filter (\<lambda>i. resolved_name ws (batch ! i) = Some name) [0..<length batch]"
      by simp
    then show "distinct (snd p)
      \<and> (\<forall>x \<in> set (snd p). the (resolved_name ws (batch ! x)) = fst p)"
      using pe by auto
  qed
  from carried i obtain sd where sd: "spec_decode_params (batch ! i) = Some sd"
    by (metis nth_mem not_None_eq)
  define name where "name = resolve ws (get_proposer sd)"
  have rn: "resolved_name ws (batch ! i) = Some name"
    using sd by (simp add: resolved_name_def name_def)
  let ?P = "\<lambda>s. resolved_name ws s = Some name"
  let ?idxs = "filter (\<lambda>k. ?P (batch ! k)) [0..<length batch]"
  let ?j = "length (filter ?P (take i batch))"
  have pos: "position_in_group ws batch i = ?j"
    by (simp add: position_in_group_def rn)
  from pg(5) [OF i rn] have moi: "(name, ?idxs) \<in> set oi"
    and mpr: "(name, group_members ws name batch) \<in> set pr" by simp_all
  from pg(4) [OF mpr] have gne: "group_members ws name batch \<noteq> []" by simp
  from submit_all_ok [OF sa mpr gne] obtain w where
    w: "map_of ws name = Some w"
    and mfs: "(name, group_members ws name batch,
        get_spec_proposals_w w (group_members ws name batch) bonus) \<in> set fs" by blast
  from collect_results_ok [OF cr dfs mfs] obtain served where
    served: "get_spec_proposals_w w (group_members ws name batch) bonus = Inr served"
    and look: "map_of ap name = Some served" by blast
  from index_list_position [of i batch ?P, OF i rn]
  have jlt: "?j < length ?idxs" and jth: "?idxs ! ?j = i" by simp_all
  from filter_nth_position [of i batch ?P, OF i rn]
  have glt: "?j < length (group_members ws name batch)"
    and gth: "group_members ws name batch ! ?j = batch ! i"
    by (simp_all add: group_members_def)
  from merge_all_written [OF ma pg(2) own moi jlt] look
  have wr: "?j < length (proposal_token_ids served)" "?j < length (proposal_probs served)"
    "?j < length (proposal_lens served)"
    "mt ! (?idxs ! ?j) = Some (proposal_token_ids served ! ?j)"
    "mp ! (?idxs ! ?j) = Some (proposal_probs served ! ?j)"
    "ml ! (?idxs ! ?j) = Some (proposal_lens served ! ?j)" by auto
  from rn w served glt gth wr [unfolded jth] show ?thesis unfolding pos by blast
qed

text \<open>
  Claim C3. On a batch in which every sequence carries an assignment, the proposals that
  \<open>_get_combined_spec_proposals\<close> returns are in batch order: the three tensors have one
  row per sequence, and row \<open>i\<close> of each is the row that the proposer serving sequence
  \<open>i\<close> (the one registered under the name the sequence resolves to) produced for it,
  that is the row at the position sequence \<open>i\<close> has in the sub-batch handed to that
  proposer, however the batch is split into groups.
\<close>

theorem combined_proposals_in_batch_order:
  assumes carried: "\<forall>seq \<in> set batch. spec_decode_params seq \<noteq> None"
    and returned: "result (get_combined_spec_proposals ws batch bonus) = Inr out"
  shows "length (proposal_token_ids out) = length batch
    \<and> length (proposal_probs out) = length batch
    \<and> length (proposal_lens out) = length batch
    \<and> (\<forall>i < length batch.
         \<exists>name w served.
           resolved_name ws (batch ! i) = Some name \<and> map_of ws name = Some w
           \<and> get_spec_proposals_w w (group_members ws name batch) bonus = Inr served
           \<and> position_in_group ws batch i < length (group_members ws name batch)
           \<and> group_members ws name batch ! position_in_group ws batch i = batch ! i
           \<and> position_in_group ws batch i < length (proposal_token_ids served)
           \<and> position_in_group ws batch i < length (proposal_probs served)
           \<and> position_in_group ws batch i < length (proposal_lens served)
           \<and> proposal_token_ids out ! i =
               proposal_token_ids served ! position_in_group ws batch i
           \<and> proposal_probs out ! i = proposal_probs served ! position_in_group ws batch i
           \<and> proposal_lens out ! i = proposal_lens served ! position_in_group ws batch i)"
proof -
  from combined_stages [OF returned] obtain pr oi fs ap mt mp ml where
    ps: "partition_scan (valid_proposers ws) (enumerate 0 batch) [] [] = (pr, oi)"
    and sa: "submit_all ws pr bonus = (None, fs)"
    and cr: "collect_results fs [] = Inr ap"
    and ma: "merge_all oi ap (replicate (length batch) None, replicate (length batch) None,
        replicate (length batch) None) = Inr (mt, mp, ml)"
    and st: "stack_merged (mt, mp, ml) = Inr out" by blast
  from merge_all_other [OF ma]
  have len: "length mt = length batch" "length mp = length batch" "length ml = length batch"
    by simp_all
  from stack_merged_ok [OF st]
  have out: "proposal_token_ids out = map the mt" "proposal_probs out = map the mp"
    "proposal_lens out = map the ml" by simp_all
  have each: "\<exists>name w served.
           resolved_name ws (batch ! i) = Some name \<and> map_of ws name = Some w
           \<and> get_spec_proposals_w w (group_members ws name batch) bonus = Inr served
           \<and> position_in_group ws batch i < length (group_members ws name batch)
           \<and> group_members ws name batch ! position_in_group ws batch i = batch ! i
           \<and> position_in_group ws batch i < length (proposal_token_ids served)
           \<and> position_in_group ws batch i < length (proposal_probs served)
           \<and> position_in_group ws batch i < length (proposal_lens served)
           \<and> proposal_token_ids out ! i =
               proposal_token_ids served ! position_in_group ws batch i
           \<and> proposal_probs out ! i = proposal_probs served ! position_in_group ws batch i
           \<and> proposal_lens out ! i = proposal_lens served ! position_in_group ws batch i"
    if i: "i < length batch" for i
  proof -
    from merged_rows [OF carried ps sa cr ma i] obtain name w served where
      r: "resolved_name ws (batch ! i) = Some name" "map_of ws name = Some w"
        "get_spec_proposals_w w (group_members ws name batch) bonus = Inr served"
        "position_in_group ws batch i < length (group_members ws name batch)"
        "group_members ws name batch ! position_in_group ws batch i = batch ! i"
        "position_in_group ws batch i < length (proposal_token_ids served)"
        "position_in_group ws batch i < length (proposal_probs served)"
        "position_in_group ws batch i < length (proposal_lens served)"
      and m: "mt ! i = Some (proposal_token_ids served ! position_in_group ws batch i)"
        "mp ! i = Some (proposal_probs served ! position_in_group ws batch i)"
        "ml ! i = Some (proposal_lens served ! position_in_group ws batch i)"
      by blast
    have "proposal_token_ids out ! i = proposal_token_ids served ! position_in_group ws batch i"
      "proposal_probs out ! i = proposal_probs served ! position_in_group ws batch i"
      "proposal_lens out ! i = proposal_lens served ! position_in_group ws batch i"
      using m i len unfolding out by simp_all
    with r show ?thesis by blast
  qed
  from each len out show ?thesis by simp
qed

theorem combined_proposals_in_batch_order_witness:
  "result (get_combined_spec_proposals
       [(ngram, stub_worker OtherProposerWorker 0), (''A'', stub_worker MultiStepWorker 1),
        (''B'', stub_worker MultiStepWorker 2)]
       [seq_with ''r0'' ''A'', seq_with ''r1'' ngram, seq_with ''r2'' ''A'',
        seq_with ''r3'' ''B''] {})
     = Inr \<lparr>proposal_token_ids = [[1], [0], [1], [2]],
            proposal_probs = [[[1]], [[1]], [[1]], [[1]]], proposal_lens = [1, 1, 1, 1]\<rparr>
   \<and> (\<exists>name w served.
         resolved_name
           [(ngram, stub_worker OtherProposerWorker 0), (''A'', stub_worker MultiStepWorker 1),
            (''B'', stub_worker MultiStepWorker 2)]
           ([seq_with ''r0'' ''A'', seq_with ''r1'' ngram, seq_with ''r2'' ''A'',
             seq_with ''r3'' ''B''] ! 2) = Some name
         \<and> map_of
           [(ngram, stub_worker OtherProposerWorker 0), (''A'', stub_worker MultiStepWorker 1),
            (''B'', stub_worker MultiStepWorker 2)] name = Some w
         \<and> get_spec_proposals_w w
             (group_members
               [(ngram, stub_worker OtherProposerWorker 0),
                (''A'', stub_worker MultiStepWorker 1), (''B'', stub_worker MultiStepWorker 2)]
               name
               [seq_with ''r0'' ''A'', seq_with ''r1'' ngram, seq_with ''r2'' ''A'',
                seq_with ''r3'' ''B'']) {} = Inr served
         \<and> [1] = proposal_token_ids served
               ! position_in_group
                   [(ngram, stub_worker OtherProposerWorker 0),
                    (''A'', stub_worker MultiStepWorker 1),
                    (''B'', stub_worker MultiStepWorker 2)]
                   [seq_with ''r0'' ''A'', seq_with ''r1'' ngram, seq_with ''r2'' ''A'',
                    seq_with ''r3'' ''B''] 2)"
proof -
  let ?ws = "[(ngram, stub_worker OtherProposerWorker 0), (''A'', stub_worker MultiStepWorker 1),
        (''B'', stub_worker MultiStepWorker 2)]"
  let ?b = "[seq_with ''r0'' ''A'', seq_with ''r1'' ngram, seq_with ''r2'' ''A'',
        seq_with ''r3'' ''B'']"
  let ?out = "\<lparr>proposal_token_ids = [[1], [0], [1], [2]],
            proposal_probs = [[[1]], [[1]], [[1]], [[1]]], proposal_lens = [1, 1, 1, 1]\<rparr>"
  have carried: "\<forall>seq \<in> set ?b. spec_decode_params seq \<noteq> None"
    by (simp add: seq_with_def)
  have returned: "result (get_combined_spec_proposals ?ws ?b {}) = Inr ?out"
    by (simp add: valid_proposers_def ngram_def get_combined_spec_proposals_def seq_with_def
        stub_worker_def stack_merged_def torch_stack_def enumerate_eq_zip Let_def)
  from combined_proposals_in_batch_order [OF carried returned]
  have "\<forall>i < length ?b. \<exists>name w served.
           resolved_name ?ws (?b ! i) = Some name \<and> map_of ?ws name = Some w
           \<and> get_spec_proposals_w w (group_members ?ws name ?b) {} = Inr served
           \<and> proposal_token_ids ?out ! i =
               proposal_token_ids served ! position_in_group ?ws ?b i"
    by blast
  then have "\<exists>name w served.
           resolved_name ?ws (?b ! 2) = Some name \<and> map_of ?ws name = Some w
           \<and> get_spec_proposals_w w (group_members ?ws name ?b) {} = Inr served
           \<and> proposal_token_ids ?out ! 2 =
               proposal_token_ids served ! position_in_group ?ws ?b 2"
    by (metis length_Cons list.size(3) numeral_2_eq_2 lessI less_SucI)
  then have "\<exists>name w served.
           resolved_name ?ws (?b ! 2) = Some name \<and> map_of ?ws name = Some w
           \<and> get_spec_proposals_w w (group_members ?ws name ?b) {} = Inr served
           \<and> [1] = proposal_token_ids served ! position_in_group ?ws ?b 2"
    by simp
  with returned show ?thesis by blast
qed

text \<open>
  The operation does return on such a batch when it is not empty, \<open>[ngram]\<close> is
  registered and every registered proposer answers a sub-batch with one row per sequence
  in each tensor, all rows of one shape.
\<close>

lemma combined_proposals_returned:
  assumes reg: "ngram \<in> set (valid_proposers ws)"
    and carried: "\<forall>seq \<in> set batch. spec_decode_params seq \<noteq> None"
    and ne: "batch \<noteq> []"
    and wf: "\<And>name w req. map_of ws name = Some w \<Longrightarrow>
        \<exists>served. get_spec_proposals_w w req bonus = Inr served
          \<and> length (proposal_token_ids served) = length req
          \<and> length (proposal_probs served) = length req
          \<and> length (proposal_lens served) = length req
          \<and> (\<forall>row \<in> set (proposal_token_ids served). length row = k)
          \<and> (\<forall>row \<in> set (proposal_probs served). map length row = shp)"
  shows "\<exists>out. result (get_combined_spec_proposals ws batch bonus) = Inr out"
proof -
  obtain pr oi where ps: "partition_scan (valid_proposers ws) (enumerate 0 batch) [] [] = (pr, oi)"
    by (cases "partition_scan (valid_proposers ws) (enumerate 0 batch) [] []")
  note pg = partition_groups [OF ps]
  have names: "\<forall>p \<in> set pr. fst p \<in> fst ` set ws"
  proof
    fix p assume p: "p \<in> set pr"
    obtain name sq where pe: "p = (name, sq)" by (cases p)
    have "(name, sq) \<in> set pr" using p pe by simp
    from pg(4) [OF this] have "group_members ws name batch \<noteq> []" by auto
    then obtain s where "s \<in> set (group_members ws name batch)"
      by (meson last_in_set)
    then have "resolved_name ws s = Some name" by (simp add: group_members_def)
    then obtain sd where "name = resolve ws (get_proposer sd)"
      by (auto simp: resolved_name_def)
    with reg have "name \<in> set (valid_proposers ws)" by (simp add: resolve_def)
    with pe show "fst p \<in> fst ` set ws" by (simp add: valid_proposers_def)
  qed
  obtain fs where sa: "submit_all ws pr bonus = (None, fs)"
    using submit_all_total [OF names, of bonus] by (cases "submit_all ws pr bonus") simp
  have "\<forall>f \<in> set fs. \<exists>proposals. snd (snd f) = Inr proposals"
  proof
    fix f assume f: "f \<in> set fs"
    obtain n sq fut where fe: "f = (n, sq, fut)" by (cases f)
    from submit_all_member [of n sq fut ws pr bonus] f fe sa obtain w where
      "map_of ws n = Some w" "fut = get_spec_proposals_w w sq bonus" by auto
    with wf [of n w sq] fe show "\<exists>proposals. snd (snd f) = Inr proposals" by auto
  qed
  from collect_results_total [OF this] obtain ap where cr: "collect_results fs [] = Inr ap"
    by blast
  have dfs: "distinct (map fst fs)"
    using submit_all_distinct [of pr ws bonus] pg(1) pg(2) sa by simp
  let ?n = "length batch"
  let ?mt0 = "replicate ?n None :: int list option list"
  let ?mp0 = "replicate ?n None :: real list list option list"
  let ?ml0 = "replicate ?n None :: int option list"
  have groups: "\<forall>p \<in> set oi. \<exists>proposals. map_of ap (fst p) = Some proposals
      \<and> length (snd p) \<le> length (proposal_token_ids proposals)
      \<and> length (snd p) \<le> length (proposal_probs proposals)
      \<and> length (snd p) \<le> length (proposal_lens proposals)
      \<and> (\<forall>x \<in> set (snd p). x < length ?mt0)"
  proof
    fix p assume p: "p \<in> set oi"
    obtain name idxs where pe: "p = (name, idxs)" by (cases p)
    from pg(3) [of name idxs] p pe
    have idxs: "idxs = filter (\<lambda>i. resolved_name ws (batch ! i) = Some name) [0..<?n]"
      by simp
    from p pe have "name \<in> set (map fst oi)" by (metis fst_conv image_eqI set_map)
    then have "name \<in> set (map fst pr)" using pg(1) by simp
    then obtain sq where mpr: "(name, sq) \<in> set pr" by auto
    from pg(4) [OF mpr] have sq: "sq = group_members ws name batch" and sne: "sq \<noteq> []"
      by blast+
    from submit_all_ok [OF sa mpr sne] obtain w where
      w: "map_of ws name = Some w"
      and mfs: "(name, sq, get_spec_proposals_w w sq bonus) \<in> set fs" by blast
    from collect_results_ok [OF cr dfs mfs] obtain served where
      served: "get_spec_proposals_w w sq bonus = Inr served"
      and look: "map_of ap name = Some served" by blast
    from wf [OF w, of sq] served
    have l: "length (proposal_token_ids served) = length sq"
      "length (proposal_probs served) = length sq"
      "length (proposal_lens served) = length sq" by auto
    have "length idxs = length sq"
      unfolding idxs sq group_members_def
      by (rule group_index_length [of "\<lambda>s. resolved_name ws s = Some name" batch])
    with l look idxs pe show "\<exists>proposals. map_of ap (fst p) = Some proposals
      \<and> length (snd p) \<le> length (proposal_token_ids proposals)
      \<and> length (snd p) \<le> length (proposal_probs proposals)
      \<and> length (snd p) \<le> length (proposal_lens proposals)
      \<and> (\<forall>x \<in> set (snd p). x < length ?mt0)" by auto
  qed
  have "\<exists>m. merge_all oi ap (?mt0, ?mp0, ?ml0) = Inr m"
    by (rule merge_all_total [OF groups]) simp_all
  then obtain m where ma0: "merge_all oi ap (?mt0, ?mp0, ?ml0) = Inr m" by blast
  obtain mt mp ml where m: "m = (mt, mp, ml)" by (cases m)
  note ma = ma0 [unfolded m]
  from merge_all_other [OF ma]
  have len: "length mt = ?n" "length mp = ?n" "length ml = ?n" by simp_all
  have rows: "\<exists>a b c. mt ! i = Some a \<and> length a = k \<and> mp ! i = Some b \<and> map length b = shp
      \<and> ml ! i = Some c" if i: "i < ?n" for i
  proof -
    from merged_rows [OF carried ps sa cr ma i] obtain name w served where
      w: "map_of ws name = Some w"
      and served: "get_spec_proposals_w w (group_members ws name batch) bonus = Inr served"
      and lt: "position_in_group ws batch i < length (proposal_token_ids served)"
        "position_in_group ws batch i < length (proposal_probs served)"
      and mm: "mt ! i = Some (proposal_token_ids served ! position_in_group ws batch i)"
        "mp ! i = Some (proposal_probs served ! position_in_group ws batch i)"
        "ml ! i = Some (proposal_lens served ! position_in_group ws batch i)"
      by blast
    from wf [OF w, of "group_members ws name batch"] served
    have sh: "\<forall>row \<in> set (proposal_token_ids served). length row = k"
      "\<forall>row \<in> set (proposal_probs served). map length row = shp" by auto
    from sh lt have "length (proposal_token_ids served ! position_in_group ws batch i) = k"
      "map length (proposal_probs served ! position_in_group ws batch i) = shp"
      by simp_all
    with mm show ?thesis by simp
  qed
  have mtne: "mt \<noteq> []" "mp \<noteq> []" "ml \<noteq> []" using len ne by auto
  have at: "\<forall>t \<in> set mt. \<exists>v. t = Some v \<and> length v = k"
    using rows len by (metis in_set_conv_nth)
  have ap': "\<forall>t \<in> set mp. \<exists>v. t = Some v \<and> map length v = shp"
    using rows len by (metis in_set_conv_nth)
  have al: "\<forall>t \<in> set ml. \<exists>v. t = Some v \<and> (\<lambda>l. ()) v = ()"
    using rows len by (metis in_set_conv_nth)
  have st: "stack_merged (mt, mp, ml) =
      Inr \<lparr>proposal_token_ids = map the mt, proposal_probs = map the mp,
           proposal_lens = map the ml\<rparr>"
    using torch_stack_total [OF mtne(1) at] torch_stack_total [OF mtne(2) ap']
      torch_stack_total [OF mtne(3) al]
    by (simp add: stack_merged_def)
  have "result (get_combined_spec_proposals ws batch bonus) =
      Inr \<lparr>proposal_token_ids = map the mt, proposal_probs = map the mp,
           proposal_lens = map the ml\<rparr>"
    using ps sa cr ma st by (simp add: get_combined_spec_proposals_def Let_def)
  then show ?thesis by blast
qed

text \<open>
  Claim C1. Every index of the batch is to belong to exactly one group, a sequence
  without assignment going to the \<open>[ngram]\<close> group, and every output position is to be
  written once. The partition loop passes over a sequence whose \<open>sd_params\<close> is \<open>None\<close>:
  its index enters no group, its three output positions stay \<open>None\<close>, and \<open>torch.stack\<close>
  raises \<open>TypeError\<close>. So it is for the batch of one unassigned sequence, where no group
  exists at all, and for a batch that mixes assigned and unassigned sequences.
\<close>

theorem unassigned_sequence_is_dropped:
  "partition_scan (valid_proposers [(ngram, stub_worker OtherProposerWorker 0)])
      (enumerate 0 [seq_without ''r0'']) [] [] = ([], [])
   \<and> result (get_combined_spec_proposals [(ngram, stub_worker OtherProposerWorker 0)]
        [seq_without ''r0''] {}) = Inl TypeError
   \<and> snd (partition_scan (valid_proposers [(ngram, stub_worker OtherProposerWorker 0)])
        (enumerate 0 [seq_with ''r0'' ngram, seq_without ''r1'', seq_with ''r2'' ''bogus''])
        [] []) = [(ngram, [0, 2])]
   \<and> result (get_combined_spec_proposals [(ngram, stub_worker OtherProposerWorker 0)]
        [seq_with ''r0'' ngram, seq_without ''r1'', seq_with ''r2'' ''bogus''] {})
       = Inl TypeError"
  by (simp add: valid_proposers_def ngram_def get_combined_spec_proposals_def seq_with_def
      seq_without_def stub_worker_def stack_merged_def torch_stack_def enumerate_eq_zip Let_def)

end
